theory Spec2Isabelle
  imports Main
begin

section \<open>Containers of the C++ standard library\<close>

text \<open>
  A \<^verbatim>\<open>std::map<K, V>\<close> is an association list whose keys are strictly increasing, so
  that walking the list is walking the map with its iterator. An iterator into the map is
  modelled by the key of the node it points to; an iterator whose node has been erased is
  a key that \<open>map_of\<close> no longer finds.
\<close>

definition omap_emplace :: "'k::linorder \<Rightarrow> 'v \<Rightarrow> ('k \<times> 'v) list \<Rightarrow> ('k \<times> 'v) list \<times> bool" where
  "omap_emplace k v m =
     (case map_of m k of
        Some _ \<Rightarrow> (m, False)
      | None \<Rightarrow> (insort_key fst (k, v) m, True))"

definition omap_erase :: "'k \<Rightarrow> ('k \<times> 'v) list \<Rightarrow> ('k \<times> 'v) list" where
  "omap_erase k m = filter (\<lambda>kv. fst kv \<noteq> k) m"

definition omap_modify :: "'k \<Rightarrow> ('v \<Rightarrow> 'v) \<Rightarrow> ('k \<times> 'v) list \<Rightarrow> ('k \<times> 'v) list" where
  "omap_modify k f m = map (\<lambda>kv. if fst kv = k then (fst kv, f (snd kv)) else kv) m"

section \<open>The orphanage: data model\<close>

type_synonym Txid = nat
type_synonym Wtxid = nat
type_synonym NodeId = int
type_synonym NodeSeconds = int
type_synonym COutPoint = "Txid \<times> nat"

text \<open>
  The transaction is opaque to the orphanage but for its two hashes, the prevouts of its
  inputs (\<^verbatim>\<open>vin[i].prevout\<close>), the number of its outputs and its weight.
\<close>

record CTransaction =
  GetHash :: Txid
  GetWitnessHash :: Wtxid
  vin :: "COutPoint list"
  vout_size :: nat
  GetTransactionWeight :: nat

record OrphanTx =
  tx :: CTransaction
  announcers :: "NodeId set"
  nTimeExpire :: NodeSeconds
  list_pos :: nat
  parent_txids :: "Txid list"

record TxOrphanage =
  m_orphans :: "(Wtxid \<times> OrphanTx) list"
  m_orphan_list :: "Wtxid list"
  m_outpoint_to_orphan_it :: "COutPoint \<rightharpoonup> Wtxid set"
  m_peer_work_set :: "NodeId \<rightharpoonup> Wtxid set"
  m_next_sweep :: NodeSeconds

text \<open>
  A failed \<^verbatim>\<open>assert\<close> aborts the process. Reading a vector out of range, dereferencing an
  iterator whose node is gone and \<^verbatim>\<open>randrange(0)\<close> are undefined behaviour in the source;
  the model reports them instead of continuing.
\<close>

datatype abort = AssertionFailed | UndefinedBehaviour

text \<open>
  Modelled from the spec: the header \<^verbatim>\<open>txorphanage.h\<close> that declares the two durations is
  not part of the sources at hand; the spec gives 20 minutes and 5 minutes. Times are in
  seconds, as \<^verbatim>\<open>NodeSeconds\<close> is.
\<close>

definition ORPHAN_TX_EXPIRE_TIME :: NodeSeconds where
  "ORPHAN_TX_EXPIRE_TIME = 20 * 60"

definition ORPHAN_TX_EXPIRE_INTERVAL :: NodeSeconds where
  "ORPHAN_TX_EXPIRE_INTERVAL = 5 * 60"

text \<open>
  Modelled from the spec: the members are initialised in the header, which is not part of
  the sources at hand. A fresh orphanage holds nothing; its first sweep is due at time 0
  here, and the theorem on sequences of calls starts from any time of the first sweep.
\<close>

definition empty_orphanage :: TxOrphanage where
  "empty_orphanage =
     \<lparr>m_orphans = [], m_orphan_list = [], m_outpoint_to_orphan_it = Map.empty,
      m_peer_work_set = Map.empty, m_next_sweep = 0\<rparr>"

text \<open>Two transactions to run the operations on: the second spends an output of the first.\<close>

definition parent_tx :: CTransaction where
  "parent_tx = \<lparr>GetHash = 10, GetWitnessHash = 11, vin = [(1, 0)], vout_size = 2,
                 GetTransactionWeight = 400\<rparr>"

definition child_tx :: CTransaction where
  "child_tx = \<lparr>GetHash = 20, GetWitnessHash = 21, vin = [(10, 0), (10, 1)], vout_size = 1,
                GetTransactionWeight = 600\<rparr>"

section \<open>The orphanage: operations\<close>

text \<open>\<^verbatim>\<open>m_outpoint_to_orphan_it[txin.prevout].insert(it)\<close> for each input.\<close>

definition outpoint_insert :: "Wtxid \<Rightarrow> COutPoint \<Rightarrow> (COutPoint \<rightharpoonup> Wtxid set) \<Rightarrow> (COutPoint \<rightharpoonup> Wtxid set)" where
  "outpoint_insert w p m = m(p \<mapsto> insert w (case m p of None \<Rightarrow> {} | Some S \<Rightarrow> S))"

text \<open>
  \<^verbatim>\<open>AddTx\<close>. The policy constant \<^verbatim>\<open>MAX_STANDARD_TX_WEIGHT\<close> and the clock
  \<^verbatim>\<open>Now<NodeSeconds>()\<close> are the first two parameters. \<^verbatim>\<open>Assume\<close> is the identity in a
  production build and is modelled as such.
\<close>

definition AddTx ::
  "nat \<Rightarrow> NodeSeconds \<Rightarrow> TxOrphanage \<Rightarrow> CTransaction \<Rightarrow> NodeId \<Rightarrow> Txid list \<Rightarrow> abort + (TxOrphanage \<times> bool)" where
  "AddTx MAX_STANDARD_TX_WEIGHT now s t peer parents =
     (let wtxid = GetWitnessHash t in
      case map_of (m_orphans s) wtxid of
        Some _ \<Rightarrow>
          Inr (s\<lparr>m_orphans :=
                   omap_modify wtxid (\<lambda>e. e\<lparr>announcers := insert peer (announcers e)\<rparr>) (m_orphans s)\<rparr>,
               False)
      | None \<Rightarrow>
          if GetTransactionWeight t > MAX_STANDARD_TX_WEIGHT then Inr (s, False)
          else
            (case omap_emplace wtxid
                    \<lparr>tx = t, announcers = {peer}, nTimeExpire = now + ORPHAN_TX_EXPIRE_TIME,
                     list_pos = length (m_orphan_list s), parent_txids = parents\<rparr>
                    (m_orphans s) of
               (m', inserted) \<Rightarrow>
                 if \<not> inserted then Inl AssertionFailed
                 else Inr (s\<lparr>m_orphans := m',
                             m_orphan_list := m_orphan_list s @ [wtxid],
                             m_outpoint_to_orphan_it :=
                               fold (outpoint_insert wtxid) (vin t) (m_outpoint_to_orphan_it s)\<rparr>,
                           True)))"

definition AddAnnouncer :: "TxOrphanage \<Rightarrow> Wtxid \<Rightarrow> NodeId \<Rightarrow> TxOrphanage \<times> bool" where
  "AddAnnouncer s wtxid peer =
     (case map_of (m_orphans s) wtxid of
        Some e \<Rightarrow>
          if peer \<notin> announcers e then
            (s\<lparr>m_orphans :=
                  omap_modify wtxid (\<lambda>e. e\<lparr>announcers := insert peer (announcers e)\<rparr>) (m_orphans s)\<rparr>,
             True)
          else (s, False)
      | None \<Rightarrow> (s, False))"

text \<open>The loop over the inputs of the erased transaction in \<^verbatim>\<open>EraseTx\<close>.\<close>

definition outpoint_erase :: "Wtxid \<Rightarrow> COutPoint \<Rightarrow> (COutPoint \<rightharpoonup> Wtxid set) \<Rightarrow> (COutPoint \<rightharpoonup> Wtxid set)" where
  "outpoint_erase w p m =
     (case m p of
        None \<Rightarrow> m
      | Some S \<Rightarrow> if S - {w} = {} then m(p := None) else m(p \<mapsto> S - {w}))"

definition EraseTx :: "TxOrphanage \<Rightarrow> Wtxid \<Rightarrow> abort + (TxOrphanage \<times> nat)" where
  "EraseTx s wtxid =
     (case map_of (m_orphans s) wtxid of
        None \<Rightarrow> Inr (s, 0)
      | Some e \<Rightarrow>
          (let byprev = fold (outpoint_erase wtxid) (vin (tx e)) (m_outpoint_to_orphan_it s);
               old_pos = list_pos e;
               lst = m_orphan_list s
           in if length lst \<le> old_pos then Inl UndefinedBehaviour
              else if lst ! old_pos \<noteq> wtxid then Inl AssertionFailed
              else if old_pos + 1 \<noteq> length lst then
                (let it_last = last lst in
                 case map_of (m_orphans s) it_last of
                   None \<Rightarrow> Inl UndefinedBehaviour
                 | Some _ \<Rightarrow>
                     Inr (s\<lparr>m_orphans :=
                              omap_erase wtxid
                                (omap_modify it_last (\<lambda>l. l\<lparr>list_pos := old_pos\<rparr>) (m_orphans s)),
                            m_orphan_list := butlast (lst[old_pos := it_last]),
                            m_outpoint_to_orphan_it := byprev\<rparr>, 1))
              else
                Inr (s\<lparr>m_orphans := omap_erase wtxid (m_orphans s),
                       m_orphan_list := butlast lst,
                       m_outpoint_to_orphan_it := byprev\<rparr>, 1)))"

definition EraseOrphanOfPeer :: "TxOrphanage \<Rightarrow> Wtxid \<Rightarrow> NodeId \<Rightarrow> abort + TxOrphanage" where
  "EraseOrphanOfPeer s wtxid peer =
     (case map_of (m_orphans s) wtxid of
        None \<Rightarrow> Inr s
      | Some e \<Rightarrow>
          (let s1 = (case m_peer_work_set s peer of
                       None \<Rightarrow> s
                     | Some ws \<Rightarrow> s\<lparr>m_peer_work_set := (m_peer_work_set s)(peer \<mapsto> ws - {wtxid})\<rparr>)
           in if peer \<in> announcers e then
                if card (announcers e) = 1 then map_sum id fst (EraseTx s1 wtxid)
                else Inr (s1\<lparr>m_orphans :=
                               omap_modify wtxid (\<lambda>e. e\<lparr>announcers := announcers e - {peer}\<rparr>)
                                 (m_orphans s1)\<rparr>)
              else Inr s1))"


text \<open>
  \<^verbatim>\<open>LimitOrphans\<close>. The clock is a parameter. The random number generator is the sequence of
  its raw draws; \<^verbatim>\<open>randrange(n)\<close> reduces the next draw modulo \<open>n\<close> and advances. The sweep
  walks the keys the map had when the loop began, each iterator advanced before its node
  may be erased; should a node still to be visited be gone when its turn comes, the
  iterator is dangling and the model reports undefined behaviour. The eviction loop has no
  bound of its own, so it is a partial function: \<open>None\<close> is a run that never returns.
\<close>

type_synonym FastRandomContext = "nat \<Rightarrow> nat"

fun sweep_loop ::
  "NodeSeconds \<Rightarrow> Wtxid list \<Rightarrow> TxOrphanage \<Rightarrow> Wtxid list \<Rightarrow> NodeSeconds \<Rightarrow>
     abort + (TxOrphanage \<times> Wtxid list \<times> NodeSeconds)" where
  "sweep_loop nNow [] s erased nMinExpTime = Inr (s, erased, nMinExpTime)"
| "sweep_loop nNow (iter # rest) s erased nMinExpTime =
     (case map_of (m_orphans s) iter of
        None \<Rightarrow> Inl UndefinedBehaviour
      | Some maybeErase \<Rightarrow>
          if nTimeExpire maybeErase \<le> nNow then
            (let wtxid = GetWitnessHash (tx maybeErase) in
             case EraseTx s wtxid of
               Inl a \<Rightarrow> Inl a
             | Inr (s', _) \<Rightarrow> sweep_loop nNow rest s' (erased @ [wtxid]) nMinExpTime)
          else sweep_loop nNow rest s erased (min (nTimeExpire maybeErase) nMinExpTime))"

partial_function (option) evict_loop ::
  "nat \<Rightarrow> TxOrphanage \<Rightarrow> Wtxid list \<Rightarrow> FastRandomContext \<Rightarrow>
     (abort + (TxOrphanage \<times> Wtxid list \<times> FastRandomContext)) option" where
  "evict_loop max_orphans s erased rng =
     (if length (m_orphans s) > max_orphans then
        (if m_orphan_list s = [] then Some (Inl UndefinedBehaviour)
         else
           (let randompos = rng 0 mod length (m_orphan_list s) in
            case map_of (m_orphans s) (m_orphan_list s ! randompos) of
              None \<Rightarrow> Some (Inl UndefinedBehaviour)
            | Some e \<Rightarrow>
                (let wtxid = GetWitnessHash (tx e) in
                 case EraseTx s wtxid of
                   Inl a \<Rightarrow> Some (Inl a)
                 | Inr (s', _) \<Rightarrow> evict_loop max_orphans s' (erased @ [wtxid]) (\<lambda>i. rng (Suc i)))))
      else Some (Inr (s, erased, rng)))"

definition LimitOrphans ::
  "NodeSeconds \<Rightarrow> TxOrphanage \<Rightarrow> nat \<Rightarrow> FastRandomContext \<Rightarrow>
     (abort + (TxOrphanage \<times> Wtxid list \<times> FastRandomContext)) option" where
  "LimitOrphans nNow s max_orphans rng =
     (case (if m_next_sweep s \<le> nNow then
              (case sweep_loop nNow (map fst (m_orphans s)) s []
                      (nNow + ORPHAN_TX_EXPIRE_TIME - ORPHAN_TX_EXPIRE_INTERVAL) of
                 Inl a \<Rightarrow> Inl a
               | Inr (s1, erased, nMinExpTime) \<Rightarrow>
                   Inr (s1\<lparr>m_next_sweep := nMinExpTime + ORPHAN_TX_EXPIRE_INTERVAL\<rparr>, erased))
            else Inr (s, [])) of
        Inl a \<Rightarrow> Some (Inl a)
      | Inr (s2, erased) \<Rightarrow> evict_loop max_orphans s2 erased rng)"



text \<open>
  \<^verbatim>\<open>EraseForBlock\<close>. A block is the list of its transactions. The first loop gathers, for
  each input of each transaction, the wtxid of every orphan registered under the prevout.
  The handles of one outpoint are walked in ascending order of the wtxid; the comparator of
  the set is declared in the header, and the theorem on \<^verbatim>\<open>EraseForBlock\<close> counts occurrences
  and does not depend on this order. The second loop erases what was gathered.
\<close>

type_synonym CBlock = "CTransaction list"

fun gather_set :: "TxOrphanage \<Rightarrow> Wtxid list \<Rightarrow> Wtxid list \<Rightarrow> abort + Wtxid list" where
  "gather_set s [] vOrphanErase = Inr vOrphanErase"
| "gather_set s (mi # rest) vOrphanErase =
     (case map_of (m_orphans s) mi of
        None \<Rightarrow> Inl UndefinedBehaviour
      | Some orphan \<Rightarrow> gather_set s rest (vOrphanErase @ [GetWitnessHash (tx orphan)]))"

fun gather_inputs :: "TxOrphanage \<Rightarrow> COutPoint list \<Rightarrow> Wtxid list \<Rightarrow> abort + Wtxid list" where
  "gather_inputs s [] vOrphanErase = Inr vOrphanErase"
| "gather_inputs s (prevout # rest) vOrphanErase =
     (case m_outpoint_to_orphan_it s prevout of
        None \<Rightarrow> gather_inputs s rest vOrphanErase
      | Some S \<Rightarrow>
          (case gather_set s (sorted_list_of_set S) vOrphanErase of
             Inl a \<Rightarrow> Inl a
           | Inr v \<Rightarrow> gather_inputs s rest v))"

fun gather_block :: "TxOrphanage \<Rightarrow> CBlock \<Rightarrow> Wtxid list \<Rightarrow> abort + Wtxid list" where
  "gather_block s [] vOrphanErase = Inr vOrphanErase"
| "gather_block s (ptx # rest) vOrphanErase =
     (case gather_inputs s (vin ptx) vOrphanErase of
        Inl a \<Rightarrow> Inl a
      | Inr v \<Rightarrow> gather_block s rest v)"

fun erase_all :: "TxOrphanage \<Rightarrow> Wtxid list \<Rightarrow> nat \<Rightarrow> abort + (TxOrphanage \<times> nat)" where
  "erase_all s [] nErased = Inr (s, nErased)"
| "erase_all s (orphanHash # rest) nErased =
     (case EraseTx s orphanHash of
        Inl a \<Rightarrow> Inl a
      | Inr (s', r) \<Rightarrow> erase_all s' rest (nErased + r))"

definition EraseForBlock :: "TxOrphanage \<Rightarrow> CBlock \<Rightarrow> abort + (TxOrphanage \<times> Wtxid list)" where
  "EraseForBlock s block =
     (case gather_block s block [] of
        Inl a \<Rightarrow> Inl a
      | Inr vOrphanErase \<Rightarrow>
          if vOrphanErase \<noteq> [] then
            (case erase_all s vOrphanErase 0 of
               Inl a \<Rightarrow> Inl a
             | Inr (s', _) \<Rightarrow> Inr (s', vOrphanErase))
          else Inr (s, vOrphanErase))"

text \<open>Sequences of calls on an orphanage.\<close>

datatype call =
    Call_AddTx NodeSeconds CTransaction NodeId "Txid list"
  | Call_EraseTx Wtxid
  | Call_LimitOrphans NodeSeconds nat FastRandomContext

fun run_call :: "nat \<Rightarrow> TxOrphanage \<Rightarrow> call \<Rightarrow> (abort + TxOrphanage) option" where
  "run_call W s (Call_AddTx now t peer parents) = Some (map_sum id fst (AddTx W now s t peer parents))"
| "run_call W s (Call_EraseTx wtxid) = Some (map_sum id fst (EraseTx s wtxid))"
| "run_call W s (Call_LimitOrphans now max_orphans rng) =
     map_option (map_sum id fst) (LimitOrphans now s max_orphans rng)"

fun run_calls :: "nat \<Rightarrow> TxOrphanage \<Rightarrow> call list \<Rightarrow> (abort + TxOrphanage) option" where
  "run_calls W s [] = Some (Inr s)"
| "run_calls W s (c # cs) =
     (case run_call W s c of
        Some (Inr s') \<Rightarrow> run_calls W s' cs
      | r \<Rightarrow> r)"

text \<open>The handles registered under an outpoint, in the order \<^verbatim>\<open>EraseForBlock\<close> walks them.\<close>

definition spenders :: "TxOrphanage \<Rightarrow> COutPoint \<Rightarrow> Wtxid list" where
  "spenders s p = (case m_outpoint_to_orphan_it s p of None \<Rightarrow> [] | Some S \<Rightarrow> sorted_list_of_set S)"

text \<open>Concrete runs, used to exercise the theorems below.\<close>

definition zero_rng :: FastRandomContext where "zero_rng = (\<lambda>_. 0)"


definition example_calls :: "call list" where
  "example_calls =
     [Call_AddTx 0 child_tx 7 [10], Call_AddTx 5 parent_tx 8 [], Call_EraseTx 21,
      Call_LimitOrphans 10 5 zero_rng]"

definition after_calls :: "call list \<Rightarrow> TxOrphanage" where
  "after_calls cs =
     (case run_calls 400000 empty_orphanage cs of Some (Inr s) \<Rightarrow> s | _ \<Rightarrow> empty_orphanage)"

definition two_orphans :: TxOrphanage where
  "two_orphans = after_calls (take 2 example_calls)"

definition block_tx :: CTransaction where
  "block_tx = \<lparr>GetHash = 30, GetWitnessHash = 31, vin = [(10, 0), (5, 5), (10, 1)], vout_size = 1,
                GetTransactionWeight = 500\<rparr>"

text \<open>What a call of \<^verbatim>\<open>LimitOrphans\<close> leaves: the returned vector, the expiry of each entry
  that is left, and the time of the next sweep.\<close>

definition sweep_outcome ::
  "(abort + (TxOrphanage \<times> Wtxid list \<times> FastRandomContext)) option \<Rightarrow>
     (Wtxid list \<times> NodeSeconds list \<times> NodeSeconds) option" where
  "sweep_outcome r =
     (case r of
        Some (Inr (s', erased, _)) \<Rightarrow> Some (erased, map (nTimeExpire \<circ> snd) (m_orphans s'), m_next_sweep s')
      | _ \<Rightarrow> None)"


section \<open>The orphanage: the invariant of its three indices\<close>

text \<open>
  The map is a \<^verbatim>\<open>std::map\<close> (strictly increasing keys) and every entry sits under the wtxid
  of its transaction.
\<close>

definition keys_ok :: "(Wtxid \<times> OrphanTx) list \<Rightarrow> bool" where
  "keys_ok m \<longleftrightarrow>
     sorted_wrt (<) (map fst m) \<and>
     (\<forall>k e. map_of m k = Some e \<longrightarrow> GetWitnessHash (tx e) = k)"

text \<open>
  The list is as long as the map; every entry's \<open>list_pos\<close> is an index of the list that
  holds the entry's handle; and every handle of the list is that of a live entry whose
  \<open>list_pos\<close> is the index.
\<close>

definition list_ok :: "(Wtxid \<times> OrphanTx) list \<Rightarrow> Wtxid list \<Rightarrow> bool" where
  "list_ok m l \<longleftrightarrow>
     length l = length m \<and>
     (\<forall>k e. map_of m k = Some e \<longrightarrow> list_pos e < length l \<and> l ! list_pos e = k) \<and>
     (\<forall>i<length l. \<exists>e. map_of m (l ! i) = Some e \<and> list_pos e = i)"

text \<open>
  The outpoint index holds the handle \<open>w\<close> under the outpoint \<open>p\<close> exactly when \<open>w\<close> is a live
  entry whose transaction spends \<open>p\<close>, and keeps no empty set.
\<close>

definition outpoints_ok :: "(Wtxid \<times> OrphanTx) list \<Rightarrow> (COutPoint \<rightharpoonup> Wtxid set) \<Rightarrow> bool" where
  "outpoints_ok m byprev \<longleftrightarrow>
     (\<forall>p w. (\<exists>S. byprev p = Some S \<and> w \<in> S) \<longleftrightarrow>
            (\<exists>e. map_of m w = Some e \<and> p \<in> set (vin (tx e)))) \<and>
     (\<forall>p. byprev p \<noteq> Some {})"

text \<open>The map with every \<open>list_pos\<close> blanked: what \<^verbatim>\<open>EraseTx\<close> leaves of the other entries.\<close>

definition forget_pos :: "(Wtxid \<times> OrphanTx) list \<Rightarrow> (Wtxid \<times> OrphanTx) list" where
  "forget_pos m = map (\<lambda>kv. (fst kv, (snd kv)\<lparr>list_pos := 0\<rparr>)) m"

definition coherent :: "TxOrphanage \<Rightarrow> bool" where
  "coherent s \<longleftrightarrow>
     keys_ok (m_orphans s) \<and> list_ok (m_orphans s) (m_orphan_list s) \<and>
     outpoints_ok (m_orphans s) (m_outpoint_to_orphan_it s)"


section \<open>The spork manager: data model\<close>

text \<open>
  A \<^verbatim>\<open>std::unordered_map\<close> that the code walks is an association list with distinct keys;
  the order of the list stands for the unspecified order of the walk, a new key going to
  the end. The maps that are only searched, assigned and erased are partial functions.
\<close>

definition umap_assign :: "'k \<Rightarrow> 'v \<Rightarrow> ('k \<times> 'v) list \<Rightarrow> ('k \<times> 'v) list" where
  "umap_assign k v m =
     (case map_of m k of
        Some _ \<Rightarrow> omap_modify k (\<lambda>_. v) m
      | None \<Rightarrow> m @ [(k, v)])"

definition omap_assign :: "'k::linorder \<Rightarrow> 'v \<Rightarrow> ('k \<times> 'v) list \<Rightarrow> ('k \<times> 'v) list" where
  "omap_assign k v m =
     (case map_of m k of
        Some _ \<Rightarrow> omap_modify k (\<lambda>_. v) m
      | None \<Rightarrow> insort_key fst (k, v) m)"

type_synonym SporkId = int
type_synonym CKeyID = nat
type_synonym CKey = nat
type_synonym uint256 = nat

text \<open>
  The 32-bit spork id and the 64-bit value and time are integers (a parameter that the
  source calls \<^verbatim>\<open>nSporkID\<close> or \<^verbatim>\<open>nValue\<close> is \<open>sid\<close> or \<open>val\<close> here, the source's names being
  those of the message's fields); the code compares them
  and adds two hours to the clock, nothing that could wrap for a time of this era.
\<close>

record CSporkMessage =
  vchSig :: "nat list"
  nSporkID :: SporkId
  nValue :: int
  nTimeSigned :: int

text \<open>
  \<^verbatim>\<open>GetSignatureHash\<close> hashes the id, the value and the time of signing. The hash function
  is not part of the sources at hand, and the signature primitives see the message through
  this hash only, so the model hands them the three fields themselves.
\<close>

type_synonym sighash = "SporkId \<times> int \<times> int"

definition GetSignatureHash :: "CSporkMessage \<Rightarrow> sighash" where
  "GetSignatureHash m = (nSporkID m, nValue m, nTimeSigned m)"

text \<open>
  The collaborators of the spork manager that are declared outside \<^verbatim>\<open>spork.cpp\<close>: the hash of
  the serialised message, the recovery of the signer's key id from a compact signature,
  \<^verbatim>\<open>CHashSigner::VerifyHash\<close> and \<^verbatim>\<open>CHashSigner::SignHash\<close>, and the validity and the key id of
  a private key. Every theorem below holds for whatever they compute.
\<close>

record externals =
  SerializeHash :: "CSporkMessage \<Rightarrow> uint256"
  RecoverCompact :: "sighash \<Rightarrow> nat list \<Rightarrow> CKeyID option"
  VerifyHash :: "sighash \<Rightarrow> CKeyID \<Rightarrow> nat list \<Rightarrow> bool"
  SignHash :: "sighash \<Rightarrow> CKey \<Rightarrow> nat list option"
  IsValid :: "CKey \<Rightarrow> bool"
  GetPubKeyID :: "CKey \<Rightarrow> CKeyID"

record CSporkDef =
  sporkId :: SporkId
  defaultValue :: int
  name :: string

record CSporkManager =
  mapSporksByHash :: "uint256 \<rightharpoonup> CSporkMessage"
  mapSporksActive :: "(SporkId \<times> (CKeyID \<times> CSporkMessage) list) list"
  mapSporksCachedActive :: "SporkId \<rightharpoonup> bool"
  mapSporksCachedValues :: "SporkId \<rightharpoonup> int"
  setSporkPubKeyIDs :: "CKeyID set"
  nMinSporkKeys :: int
  sporkPrivKey :: CKey

text \<open>The calls made on the peer manager, in the order they are made.\<close>

datatype peerman_call =
    AddKnownTx NodeId uint256
  | ReceivedResponse NodeId uint256
  | ForgetTxHash NodeId uint256
  | Misbehaving NodeId int string
  | RelayTransactionOther uint256

text \<open>
  Modelled from the spec: the name of the network message that carries a spork is declared
  in the protocol header, which is not part of the sources at hand.
\<close>

definition NetMsgType_SPORK :: string where
  "NetMsgType_SPORK = ''spork''"

section \<open>The spork manager: operations\<close>

definition CSporkMessage_GetHash :: "externals \<Rightarrow> CSporkMessage \<Rightarrow> uint256" where
  "CSporkMessage_GetHash ext m = SerializeHash ext m"

definition CheckSignature :: "externals \<Rightarrow> CSporkMessage \<Rightarrow> CKeyID \<Rightarrow> bool" where
  "CheckSignature ext m pubKeyId = VerifyHash ext (GetSignatureHash m) pubKeyId (vchSig m)"

definition GetSignerKeyID :: "externals \<Rightarrow> CSporkMessage \<Rightarrow> CKeyID option" where
  "GetSignerKeyID ext m = RecoverCompact ext (GetSignatureHash m) (vchSig m)"

definition Sign :: "externals \<Rightarrow> CSporkMessage \<Rightarrow> CKey \<Rightarrow> CSporkMessage option" where
  "Sign ext m key =
     (if \<not> IsValid ext key then None
      else
        (case SignHash ext (GetSignatureHash m) key of
           None \<Rightarrow> None
         | Some sig \<Rightarrow>
             if \<not> VerifyHash ext (GetSignatureHash m) (GetPubKeyID ext key) sig then None
             else Some (m\<lparr>vchSig := sig\<rparr>)))"

text \<open>
  The loop of \<^verbatim>\<open>SporkValueIsActive\<close> over the signers of one spork, in the order of their key
  ids: \<^verbatim>\<open>mapValueCounts\<close> is the third argument.
\<close>

fun count_votes :: "int \<Rightarrow> CSporkMessage list \<Rightarrow> (int \<rightharpoonup> int) \<Rightarrow> int option" where
  "count_votes nMin [] mapValueCounts = None"
| "count_votes nMin (spork # rest) mapValueCounts =
     (let c = (case mapValueCounts (nValue spork) of None \<Rightarrow> 0 | Some c \<Rightarrow> c) + 1;
          counts = mapValueCounts(nValue spork \<mapsto> c)
      in if c \<ge> nMin then Some (nValue spork) else count_votes nMin rest counts)"

definition SporkValueIsActive :: "CSporkManager \<Rightarrow> SporkId \<Rightarrow> CSporkManager \<times> int option" where
  "SporkValueIsActive s sid =
     (case map_of (mapSporksActive s) sid of
        None \<Rightarrow> (s, None)
      | Some signers \<Rightarrow>
          (case mapSporksCachedValues s sid of
             Some v \<Rightarrow> (s, Some v)
           | None \<Rightarrow>
               (case count_votes (nMinSporkKeys s) (map snd signers) Map.empty of
                  Some v \<Rightarrow>
                    (s\<lparr>mapSporksCachedValues := (mapSporksCachedValues s)(sid \<mapsto> v)\<rparr>, Some v)
                | None \<Rightarrow> (s, None))))"

definition Clear :: "CSporkManager \<Rightarrow> CSporkManager" where
  "Clear s = s\<lparr>mapSporksActive := [], mapSporksByHash := Map.empty\<rparr>"

text \<open>The two loops of \<^verbatim>\<open>CheckAndRemove\<close> over \<^verbatim>\<open>mapSporksActive\<close>, the inner one first.\<close>

fun check_signers ::
  "externals \<Rightarrow> CKeyID set \<Rightarrow> (CKeyID \<times> CSporkMessage) list \<Rightarrow> (uint256 \<rightharpoonup> CSporkMessage) \<Rightarrow>
     (CKeyID \<times> CSporkMessage) list \<times> (uint256 \<rightharpoonup> CSporkMessage)" where
  "check_signers ext keys [] byHash = ([], byHash)"
| "check_signers ext keys (itSignerPair # rest) byHash =
     (let fHasValidSig = fst itSignerPair \<in> keys \<and>
                          CheckSignature ext (snd itSignerPair) (fst itSignerPair)
      in if \<not> fHasValidSig then
           check_signers ext keys rest (byHash(CSporkMessage_GetHash ext (snd itSignerPair) := None))
         else
           (case check_signers ext keys rest byHash of
              (kept, byHash') \<Rightarrow> (itSignerPair # kept, byHash')))"

fun check_active ::
  "externals \<Rightarrow> CKeyID set \<Rightarrow> (SporkId \<times> (CKeyID \<times> CSporkMessage) list) list \<Rightarrow>
     (uint256 \<rightharpoonup> CSporkMessage) \<Rightarrow>
     (SporkId \<times> (CKeyID \<times> CSporkMessage) list) list \<times> (uint256 \<rightharpoonup> CSporkMessage)" where
  "check_active ext keys [] byHash = ([], byHash)"
| "check_active ext keys (itActive # rest) byHash =
     (case check_signers ext keys (snd itActive) byHash of
        (signers, byHash1) \<Rightarrow>
          (case check_active ext keys rest byHash1 of
             (active, byHash2) \<Rightarrow>
               (if signers = [] then active else (fst itActive, signers) # active, byHash2)))"

definition CheckAndRemove :: "externals \<Rightarrow> CSporkManager \<Rightarrow> abort + CSporkManager" where
  "CheckAndRemove ext s =
     (if setSporkPubKeyIDs s = {} then Inl AssertionFailed
      else
        (case check_active ext (setSporkPubKeyIDs s) (mapSporksActive s) (mapSporksByHash s) of
           (active, byHash) \<Rightarrow>
             Inr (s\<lparr>mapSporksActive := active,
                    mapSporksByHash :=
                      (\<lambda>h. case byHash h of
                              None \<Rightarrow> None
                            | Some m \<Rightarrow>
                                if \<exists>signer \<in> setSporkPubKeyIDs s. CheckSignature ext m signer
                                then Some m else None)\<rparr>)))"

text \<open>
  The block under \<^verbatim>\<open>LOCK(cs)\<close> that \<^verbatim>\<open>ProcessSpork\<close> and \<^verbatim>\<open>UpdateSpork\<close> both end with: store
  the message in both maps and drop what is cached for its id.
\<close>

definition store_spork :: "CSporkManager \<Rightarrow> uint256 \<Rightarrow> CKeyID \<Rightarrow> CSporkMessage \<Rightarrow> CSporkManager" where
  "store_spork s hash keyIDSigner spork =
     s\<lparr>mapSporksByHash := (mapSporksByHash s)(hash \<mapsto> spork),
       mapSporksActive :=
         umap_assign (nSporkID spork)
           (omap_assign keyIDSigner spork
              (case map_of (mapSporksActive s) (nSporkID spork) of None \<Rightarrow> [] | Some signers \<Rightarrow> signers))
           (mapSporksActive s),
       mapSporksCachedActive := (mapSporksCachedActive s)(nSporkID spork := None),
       mapSporksCachedValues := (mapSporksCachedValues s)(nSporkID spork := None)\<rparr>"

text \<open>
  \<^verbatim>\<open>ProcessSpork\<close>, given the message already read from the stream. The adjusted time is a
  parameter, \<open>pfrom\<close> is the id of the sending node and \<open>peer\<close> is what
  \<^verbatim>\<open>peerman.GetPeerRef(pfrom->GetId())\<close> returned: the peer's record, or nothing.
\<close>

definition ProcessSpork ::
  "externals \<Rightarrow> int \<Rightarrow> CSporkManager \<Rightarrow> NodeId \<Rightarrow> NodeId option \<Rightarrow> string \<Rightarrow> CSporkMessage \<Rightarrow>
     CSporkManager \<times> peerman_call list" where
  "ProcessSpork ext GetAdjustedTime s pfrom peer strCommand spork =
     (if strCommand \<noteq> NetMsgType_SPORK then (s, [])
      else
        (let hash = CSporkMessage_GetHash ext spork;
             known = (case peer of Some p \<Rightarrow> [AddKnownTx p hash] | None \<Rightarrow> []) @
                     [ReceivedResponse pfrom hash]
         in if nTimeSigned spork > GetAdjustedTime + 2 * 60 * 60 then
              (s, known @ [ForgetTxHash pfrom hash] @
                  (case peer of
                     Some p \<Rightarrow> [Misbehaving p 100 ''spork too far into the future'']
                   | None \<Rightarrow> []))
            else
              (case (case GetSignerKeyID ext spork of
                       None \<Rightarrow> None
                     | Some k \<Rightarrow> if k \<in> setSporkPubKeyIDs s then Some k else None) of
                 None \<Rightarrow>
                   (s, known @ [ForgetTxHash pfrom hash] @
                       (case peer of
                          Some p \<Rightarrow> [Misbehaving p 100 ''invalid spork signature'']
                        | None \<Rightarrow> []))
               | Some keyIDSigner \<Rightarrow>
                   (let bSeen =
                          (case map_of (mapSporksActive s) (nSporkID spork) of
                             None \<Rightarrow> False
                           | Some signers \<Rightarrow>
                               (case map_of signers keyIDSigner of
                                  None \<Rightarrow> False
                                | Some stored \<Rightarrow> nTimeSigned stored \<ge> nTimeSigned spork))
                    in if bSeen then (s, known @ [ForgetTxHash pfrom hash])
                       else (store_spork s hash keyIDSigner spork,
                             known @ [RelayTransactionOther hash, ForgetTxHash pfrom hash])))))"

definition UpdateSpork ::
  "externals \<Rightarrow> int \<Rightarrow> CSporkManager \<Rightarrow> SporkId \<Rightarrow> int \<Rightarrow>
     CSporkManager \<times> bool \<times> peerman_call list" where
  "UpdateSpork ext GetAdjustedTime s sid val =
     (case Sign ext \<lparr>vchSig = [], nSporkID = sid, nValue = val,
                     nTimeSigned = GetAdjustedTime\<rparr> (sporkPrivKey s) of
        None \<Rightarrow> (s, False, [])
      | Some spork \<Rightarrow>
          (case (case GetSignerKeyID ext spork of
                   None \<Rightarrow> None
                 | Some k \<Rightarrow> if k \<in> setSporkPubKeyIDs s then Some k else None) of
             None \<Rightarrow> (s, False, [])
           | Some keyIDSigner \<Rightarrow>
               (store_spork s (CSporkMessage_GetHash ext spork) keyIDSigner spork, True,
                [RelayTransactionOther (CSporkMessage_GetHash ext spork)])))"

text \<open>\<^verbatim>\<open>GetSporkValue\<close>; the table \<^verbatim>\<open>sporkDefs\<close> of the header is its first parameter.\<close>

definition GetSporkValue :: "CSporkDef list \<Rightarrow> CSporkManager \<Rightarrow> SporkId \<Rightarrow> CSporkManager \<times> int" where
  "GetSporkValue sporkDefs s sid =
     (case SporkValueIsActive s sid of
        (s', Some nSporkValue) \<Rightarrow> (s', nSporkValue)
      | (s', None) \<Rightarrow>
          (case find (\<lambda>sporkDef. sporkId sporkDef = sid) sporkDefs of
             Some optSpork \<Rightarrow> (s', defaultValue optSpork)
           | None \<Rightarrow> (s', - 1)))"

definition IsSporkActive ::
  "CSporkDef list \<Rightarrow> int \<Rightarrow> CSporkManager \<Rightarrow> SporkId \<Rightarrow> CSporkManager \<times> bool" where
  "IsSporkActive sporkDefs GetAdjustedTime s sid =
     (if mapSporksCachedActive s sid = Some True then (s, True)
      else
        (case GetSporkValue sporkDefs s sid of
           (s', nSporkValue) \<Rightarrow>
             (let ret = nSporkValue < GetAdjustedTime
              in if ret then
                   (s'\<lparr>mapSporksCachedActive := (mapSporksCachedActive s')(sid \<mapsto> ret)\<rparr>, ret)
                 else (s', ret))))"

definition GetSporkByHash :: "CSporkManager \<Rightarrow> uint256 \<Rightarrow> CSporkMessage option" where
  "GetSporkByHash s hash = mapSporksByHash s hash"

definition SetMinSporkKeys :: "CSporkManager \<Rightarrow> int \<Rightarrow> CSporkManager \<times> bool" where
  "SetMinSporkKeys s minSporkKeys =
     (let maxKeysNumber = int (card (setSporkPubKeyIDs s))
      in if minSporkKeys \<le> maxKeysNumber div 2 \<or> minSporkKeys > maxKeysNumber then (s, False)
         else (s\<lparr>nMinSporkKeys := minSporkKeys\<rparr>, True))"

text \<open>The message stored for a spork id and a signer.\<close>

definition stored :: "CSporkManager \<Rightarrow> SporkId \<Rightarrow> CKeyID \<Rightarrow> CSporkMessage option" where
  "stored s sid k =
     (case map_of (mapSporksActive s) sid of None \<Rightarrow> None | Some signers \<Rightarrow> map_of signers k)"

text \<open>
  A stand-in for the collaborators, to run the operations on: the signature of a key is
  the list holding its key id, whatever is signed.
\<close>

definition toy_ext :: externals where
  "toy_ext =
     \<lparr>SerializeHash = (\<lambda>m. nat \<bar>nSporkID m\<bar> + nat \<bar>nValue m\<bar> + nat \<bar>nTimeSigned m\<bar> + sum_list (vchSig m)),
      RecoverCompact = (\<lambda>h sig. case sig of [k] \<Rightarrow> Some k | _ \<Rightarrow> None),
      VerifyHash = (\<lambda>h k sig. sig = [k]),
      SignHash = (\<lambda>h key. Some [key]),
      IsValid = (\<lambda>key. key \<noteq> 0),
      GetPubKeyID = (\<lambda>key. key)\<rparr>"

definition fresh_manager :: "CKeyID set \<Rightarrow> int \<Rightarrow> CKey \<Rightarrow> CSporkManager" where
  "fresh_manager keys nMin key =
     \<lparr>mapSporksByHash = Map.empty, mapSporksActive = [], mapSporksCachedActive = Map.empty,
      mapSporksCachedValues = Map.empty, setSporkPubKeyIDs = keys, nMinSporkKeys = nMin,
      sporkPrivKey = key\<rparr>"

definition signed_spork :: "CKeyID \<Rightarrow> SporkId \<Rightarrow> int \<Rightarrow> int \<Rightarrow> CSporkMessage" where
  "signed_spork k sid val t = \<lparr>vchSig = [k], nSporkID = sid, nValue = val, nTimeSigned = t\<rparr>"

definition one_spork :: CSporkManager where
  "one_spork =
     fst (ProcessSpork toy_ext 1000 (fresh_manager {1, 2, 3} 2 1) 7 (Some 7) NetMsgType_SPORK
            (signed_spork 1 10000 5 5000))"


text \<open>
  The number of messages of a list that carry a value; over the messages of the signers of
  one spork, whose key ids are distinct, it is the number of signers of the value.
\<close>

definition tally :: "CSporkMessage list \<Rightarrow> int \<Rightarrow> int" where
  "tally sporks v = int (length (filter (\<lambda>m. nValue m = v) sporks))"

text \<open>
  The spec's words, "the first value to reach the threshold wins": walking the messages in
  order, \<open>v\<close> reaches the threshold with some message before which no value had reached it.
\<close>

definition first_to_reach :: "int \<Rightarrow> CSporkMessage list \<Rightarrow> int \<Rightarrow> bool" where
  "first_to_reach nMin sporks v \<longleftrightarrow>
     (\<exists>n<length sporks. (\<forall>v'. tally (take n sporks) v' < nMin) \<and>
                         nMin \<le> tally (take (Suc n) sporks) v)"

text \<open>Sequences of calls on a spork manager: messages coming in, and queries.\<close>

datatype spork_call =
    Call_ProcessSpork int NodeId "NodeId option" string CSporkMessage
  | Call_UpdateSpork int SporkId int
  | Call_GetSporkValue SporkId
  | Call_IsSporkActive int SporkId

fun spork_step :: "externals \<Rightarrow> CSporkDef list \<Rightarrow> spork_call \<Rightarrow> CSporkManager \<Rightarrow> CSporkManager" where
  "spork_step ext defs (Call_ProcessSpork now pfrom peer strCommand spork) s =
     fst (ProcessSpork ext now s pfrom peer strCommand spork)"
| "spork_step ext defs (Call_UpdateSpork now sid val) s = fst (UpdateSpork ext now s sid val)"
| "spork_step ext defs (Call_GetSporkValue sid) s = fst (GetSporkValue defs s sid)"
| "spork_step ext defs (Call_IsSporkActive now sid) s = fst (IsSporkActive defs now s sid)"

definition spork_run :: "externals \<Rightarrow> CSporkDef list \<Rightarrow> CSporkManager \<Rightarrow> spork_call list \<Rightarrow> CSporkManager" where
  "spork_run ext defs s cs = fold (spork_step ext defs) cs s"

text \<open>
  What the memoized values rest on: the signers of a spork have distinct key ids, and a
  memoized value is the one the count over the stored messages yields.
\<close>

definition cache_ok :: "CSporkManager \<Rightarrow> bool" where
  "cache_ok s \<longleftrightarrow>
     (\<forall>sid signers. map_of (mapSporksActive s) sid = Some signers \<longrightarrow> distinct (map fst signers)) \<and>
     (\<forall>sid v. mapSporksCachedValues s sid = Some v \<longrightarrow>
        (\<exists>signers. map_of (mapSporksActive s) sid = Some signers \<and>
           count_votes (nMinSporkKeys s) (map snd signers) Map.empty = Some v))"


definition vote_calls :: "spork_call list" where
  "vote_calls =
     [Call_ProcessSpork 1000 7 (Some 7) NetMsgType_SPORK (signed_spork 1 10000 5 900),
      Call_ProcessSpork 1000 8 (Some 8) NetMsgType_SPORK (signed_spork 2 10000 5 950),
      Call_GetSporkValue 10000]"

definition cached_manager :: CSporkManager where
  "cached_manager = spork_run toy_ext [] (fresh_manager {1, 2, 3} 2 1) vote_calls"

definition votes :: "CSporkManager \<Rightarrow> (SporkId \<times> (CKeyID \<times> int) list) list" where
  "votes s = map (\<lambda>a. (fst a, map (\<lambda>km. (fst km, nValue (snd km))) (snd a))) (mapSporksActive s)"

section \<open>Facts about the containers\<close>

lemma map_of_omap_erase: "map_of (omap_erase k m) = (map_of m)(k := None)"
  by (induction m) (auto simp: omap_erase_def)

lemma map_of_omap_modify:
  "map_of (omap_modify k f m) = (map_of m)(k := map_option f (map_of m k))"
  by (induction m) (auto simp: omap_modify_def fun_eq_iff)

lemma keys_omap_modify: "map fst (omap_modify k f m) = map fst m"
  by (induction m) (auto simp: omap_modify_def)

lemma keys_omap_erase: "map fst (omap_erase k m) = removeAll k (map fst m)"
  by (induction m) (auto simp: omap_erase_def)

lemma map_of_insort_key:
  "map_of m k = None \<Longrightarrow> map_of (insort_key fst (k, v) m) = (map_of m)(k \<mapsto> v)"
  by (induction m) (auto simp: fun_eq_iff)

section \<open>AddTx\<close>

text \<open>
  C6. \<^verbatim>\<open>AddTx\<close> never aborts. It returns true exactly when no entry with the wtxid of the
  transaction exists and the weight is within the bound, and this is exactly when it
  creates an entry: the map gains the key with a fresh entry announced by the peer alone.
  When an entry exists, the only change of the state is the peer added to the announcers
  of that entry. When none exists and the transaction is too heavy, the state is unchanged.
\<close>

theorem AddTx_creates_iff_new_and_light:
  "\<exists>s' b. AddTx W now s t p ps = Inr (s', b) \<and>
     (b \<longleftrightarrow> map_of (m_orphans s) (GetWitnessHash t) = None \<and> GetTransactionWeight t \<le> W) \<and>
     (b \<longleftrightarrow> map_of (m_orphans s) (GetWitnessHash t) = None \<and>
            length (m_orphans s') = Suc (length (m_orphans s)) \<and>
            map_of (m_orphans s') = (map_of (m_orphans s))(GetWitnessHash t \<mapsto>
               \<lparr>tx = t, announcers = {p}, nTimeExpire = now + ORPHAN_TX_EXPIRE_TIME,
                list_pos = length (m_orphan_list s), parent_txids = ps\<rparr>)) \<and>
     (\<forall>e. map_of (m_orphans s) (GetWitnessHash t) = Some e \<longrightarrow>
        \<not> b \<and>
        s' = s\<lparr>m_orphans := omap_modify (GetWitnessHash t)
                 (\<lambda>e. e\<lparr>announcers := insert p (announcers e)\<rparr>) (m_orphans s)\<rparr> \<and>
        map fst (m_orphans s') = map fst (m_orphans s) \<and>
        map_of (m_orphans s') = (map_of (m_orphans s))(GetWitnessHash t \<mapsto>
               e\<lparr>announcers := insert p (announcers e)\<rparr>)) \<and>
     (map_of (m_orphans s) (GetWitnessHash t) = None \<and> GetTransactionWeight t > W \<longrightarrow>
        \<not> b \<and> s' = s)"
proof (cases "map_of (m_orphans s) (GetWitnessHash t)")
  case (Some e)
  then show ?thesis
    by (auto simp: AddTx_def Let_def keys_omap_modify map_of_omap_modify)
next
  case None
  show ?thesis
  proof (cases "GetTransactionWeight t > W")
    case True
    with None show ?thesis by (auto simp: AddTx_def Let_def)
  next
    case False
    with None show ?thesis
      by (auto simp: AddTx_def Let_def omap_emplace_def map_of_insort_key)
  qed
qed

theorem AddTx_creates_iff_new_and_light_witness:
  "\<exists>s'. AddTx 400000 0 empty_orphanage child_tx 7 [10] = Inr (s', True) \<and>
        length (m_orphans s') = Suc 0 \<and>
        map_of (m_orphans s') 21 =
          Some \<lparr>tx = child_tx, announcers = {7}, nTimeExpire = 1200, list_pos = 0,
                parent_txids = [10]\<rparr>"
  using AddTx_creates_iff_new_and_light [of 400000 0 empty_orphanage child_tx 7 "[10]"]
  by (auto simp: empty_orphanage_def child_tx_def ORPHAN_TX_EXPIRE_TIME_def)

section \<open>Facts about the invariant\<close>

lemma fold_outpoint_erase:
  "fold (outpoint_erase w) ps m p =
     (if p \<in> set ps then
        (case m p of None \<Rightarrow> None | Some S \<Rightarrow> if S - {w} = {} then None else Some (S - {w}))
      else m p)"
proof (induction ps arbitrary: m)
  case Nil
  show ?case by simp
next
  case (Cons q ps)
  show ?case
    by (simp add: Cons.IH) (auto simp: outpoint_erase_def split: option.splits)
qed

lemma fold_outpoint_insert:
  "fold (outpoint_insert w) ps m p =
     (if p \<in> set ps then Some (insert w (case m p of None \<Rightarrow> {} | Some S \<Rightarrow> S)) else m p)"
proof (induction ps arbitrary: m)
  case Nil
  show ?case by simp
next
  case (Cons q ps)
  show ?case
    by (simp add: Cons.IH) (auto simp: outpoint_insert_def split: option.splits)
qed

lemma strict_sorted_keys_distinct: "sorted_wrt (<) (map fst (m :: (nat \<times> 'v) list)) \<Longrightarrow> distinct (map fst m)"
  using strict_sorted_iff by blast

lemma length_omap_erase:
  assumes "distinct (map fst m)" "map_of m k = Some e"
  shows "Suc (length (omap_erase k m)) = length m"
proof -
  have "k \<in> set (map fst m)" using assms(2) by (metis map_of_eq_None_iff option.distinct(1) set_map)
  hence "length (removeAll k (map fst m)) = length (map fst m) - 1" "length (map fst m) > 0"
    using assms(1) by (auto simp: distinct_remove1_removeAll[symmetric] length_remove1)
  thus ?thesis by (metis keys_omap_erase length_map Suc_pred' )
qed

lemma outpoints_ok_erase:
  assumes "outpoints_ok m byprev" "map_of m w = Some e"
    and "\<forall>k. k \<noteq> w \<longrightarrow> map_option tx (map_of m' k) = map_option tx (map_of m k)"
    and "map_of m' w = None"
  shows "outpoints_ok m' (fold (outpoint_erase w) (vin (tx e)) byprev)"
proof -
  have a: "\<And>k e'. map_of m' k = Some e' \<Longrightarrow> k \<noteq> w \<and> (\<exists>e''. map_of m k = Some e'' \<and> tx e'' = tx e')"
  proof -
    fix k e' assume h: "map_of m' k = Some e'"
    hence "k \<noteq> w" using assms(4) by auto
    moreover from this assms(3) h have "map_option tx (map_of m k) = Some (tx e')" by (metis option.simps(9))
    ultimately show "k \<noteq> w \<and> (\<exists>e''. map_of m k = Some e'' \<and> tx e'' = tx e')" by auto
  qed
  have b: "\<And>k e''. k \<noteq> w \<Longrightarrow> map_of m k = Some e'' \<Longrightarrow> (\<exists>e'. map_of m' k = Some e' \<and> tx e' = tx e'')"
  proof -
    fix k e'' assume h: "k \<noteq> w" "map_of m k = Some e''"
    with assms(3) have "map_option tx (map_of m' k) = Some (tx e'')" by (metis option.simps(9))
    thus "\<exists>e'. map_of m' k = Some e' \<and> tx e' = tx e''" by auto
  qed
  have ex: "\<And>p w'. (\<exists>S. byprev p = Some S \<and> w' \<in> S) \<longleftrightarrow>
            (\<exists>e. map_of m w' = Some e \<and> p \<in> set (vin (tx e)))"
    and ne: "\<And>p. byprev p \<noteq> Some {}"
    using assms(1) unfolding outpoints_ok_def by blast+
  let ?b = "fold (outpoint_erase w) (vin (tx e)) byprev"
  have 1: "(\<exists>S. ?b p = Some S \<and> w' \<in> S) \<longleftrightarrow>
        (\<exists>e. map_of m' w' = Some e \<and> p \<in> set (vin (tx e)))" for p w'
  proof
    assume "\<exists>S. ?b p = Some S \<and> w' \<in> S"
    then obtain S where S: "?b p = Some S" "w' \<in> S" by blast
    have "w' \<noteq> w \<and> (\<exists>S0. byprev p = Some S0 \<and> w' \<in> S0)"
    proof (cases "p \<in> set (vin (tx e))")
      case True
      with S show ?thesis
        by (auto simp: fold_outpoint_erase split: option.splits if_splits)
    next
      case False
      with S have "byprev p = Some S" by (simp add: fold_outpoint_erase)
      moreover have "w' \<noteq> w"
      proof
        assume "w' = w"
        with S(2) \<open>byprev p = Some S\<close> ex[of p w] assms(2) False show False by auto
      qed
      ultimately show ?thesis using S(2) by blast
    qed
    then obtain e0 where "w' \<noteq> w" "map_of m w' = Some e0" "p \<in> set (vin (tx e0))"
      using ex[of p w'] by blast
    with b[of w' e0] show "\<exists>e. map_of m' w' = Some e \<and> p \<in> set (vin (tx e))" by auto
  next
    assume "\<exists>e. map_of m' w' = Some e \<and> p \<in> set (vin (tx e))"
    then obtain e' where e': "map_of m' w' = Some e'" "p \<in> set (vin (tx e'))" by blast
    from a[OF e'(1)] e'(2) obtain e'' where "w' \<noteq> w" "map_of m w' = Some e''" "p \<in> set (vin (tx e''))"
      by auto
    with ex[of p w'] obtain S where "byprev p = Some S" "w' \<in> S" by blast
    with \<open>w' \<noteq> w\<close> show "\<exists>S. ?b p = Some S \<and> w' \<in> S"
      by (auto simp: fold_outpoint_erase)
  qed
  have 2: "?b p \<noteq> Some {}" for p
    using ne[of p] by (auto simp: fold_outpoint_erase split: option.splits)
  show ?thesis unfolding outpoints_ok_def using 1 2 by blast
qed

lemma list_ok_erase_last:
  assumes ok: "list_ok m l" and d: "distinct (map fst m)" and w: "map_of m w = Some e"
    and p: "Suc (list_pos e) = length l"
  shows "list_ok (omap_erase w m) (butlast l)"
proof -
  have len: "length l = length m"
    and fwd: "\<And>k e. map_of m k = Some e \<Longrightarrow> list_pos e < length l \<and> l ! list_pos e = k"
    and bwd: "\<And>i. i < length l \<Longrightarrow> \<exists>e. map_of m (l ! i) = Some e \<and> list_pos e = i"
    using ok unfolding list_ok_def by blast+
  have 1: "length (butlast l) = length (omap_erase w m)"
    using length_omap_erase[OF d w] len by simp
  have 2: "list_pos e' < length (butlast l) \<and> butlast l ! list_pos e' = k"
    if h: "map_of (omap_erase w m) k = Some e'" for k e'
  proof -
    from h have kw: "k \<noteq> w" and k: "map_of m k = Some e'"
      by (auto simp: map_of_omap_erase split: if_splits)
    from fwd[OF k] fwd[OF w] kw p have "list_pos e' \<noteq> list_pos e" by auto
    with fwd[OF k] p have "list_pos e' < length (butlast l)" by (simp, arith)
    thus ?thesis using fwd[OF k] by (simp add: nth_butlast)
  qed
  have 3: "\<exists>e'. map_of (omap_erase w m) (butlast l ! i) = Some e' \<and> list_pos e' = i"
    if h: "i < length (butlast l)" for i
  proof -
    from h have i: "i < length l" "i \<noteq> list_pos e" using p by auto
    from bwd[OF i(1)] obtain e' where e': "map_of m (l ! i) = Some e'" "list_pos e' = i" by blast
    with i(2) w have "l ! i \<noteq> w" by auto
    with e' h show ?thesis by (auto simp: map_of_omap_erase nth_butlast)
  qed
  show ?thesis unfolding list_ok_def using 1 2 3 by blast
qed

lemma list_ok_erase_swap:
  assumes ok: "list_ok m l" and d: "distinct (map fst m)" and w: "map_of m w = Some e"
    and p: "Suc (list_pos e) \<noteq> length l"
  shows "\<exists>e_last. map_of m (last l) = Some e_last \<and> last l \<noteq> w \<and>
           list_ok (omap_erase w (omap_modify (last l) (\<lambda>x. x\<lparr>list_pos := list_pos e\<rparr>) m))
                   (butlast (l[list_pos e := last l]))"
proof -
  have len: "length l = length m"
    and fwd: "\<And>k e. map_of m k = Some e \<Longrightarrow> list_pos e < length l \<and> l ! list_pos e = k"
    and bwd: "\<And>i. i < length l \<Longrightarrow> \<exists>e. map_of m (l ! i) = Some e \<and> list_pos e = i"
    using ok unfolding list_ok_def by blast+
  let ?p = "list_pos e"
  let ?n = "length l - 1"
  from fwd[OF w] have pl: "?p < length l" "l ! ?p = w" by auto
  hence ne: "l \<noteq> []" by auto
  hence last: "last l = l ! ?n" by (simp add: last_conv_nth)
  from pl p have pn: "?p < ?n" by arith
  from bwd[of ?n] ne obtain el where el: "map_of m (last l) = Some el" "list_pos el = ?n"
    using last by auto
  have lw: "last l \<noteq> w" using el w pn by auto
  let ?m' = "omap_erase w (omap_modify (last l) (\<lambda>x. x\<lparr>list_pos := ?p\<rparr>) m)"
  let ?l' = "butlast (l[?p := last l])"
  have mo: "map_of ?m' = ((map_of m)(last l \<mapsto> el\<lparr>list_pos := ?p\<rparr>))(w := None)"
    using el by (simp add: map_of_omap_erase map_of_omap_modify)
  have d': "distinct (map fst (omap_modify (last l) (\<lambda>x. x\<lparr>list_pos := ?p\<rparr>) m))"
    using d by (simp add: keys_omap_modify)
  have w': "map_of (omap_modify (last l) (\<lambda>x. x\<lparr>list_pos := ?p\<rparr>) m) w = Some e"
    using w lw by (simp add: map_of_omap_modify)
  have 1: "length ?l' = length ?m'"
    using length_omap_erase[OF d' w'] len by (simp add: omap_modify_def)
  have ll: "length ?l' = ?n" by simp
  have 2: "list_pos e' < length ?l' \<and> ?l' ! list_pos e' = k"
    if h: "map_of ?m' k = Some e'" for k e'
  proof (cases "k = last l")
    case True
    with h lw have "e' = el\<lparr>list_pos := ?p\<rparr>" by (simp add: mo)
    thus ?thesis using pn pl True by (simp add: nth_butlast)
  next
    case False
    with h have kw: "k \<noteq> w" and k: "map_of m k = Some e'"
      by (auto simp: mo split: if_splits)
    from fwd[OF k] pl kw have q1: "list_pos e' \<noteq> ?p" by auto
    from fwd[OF k] False last have q2: "list_pos e' \<noteq> ?n" by auto
    from fwd[OF k] q2 have q3: "list_pos e' < ?n" by arith
    show ?thesis using q1 q3 fwd[OF k] by (simp add: nth_butlast)
  qed
  have 3: "\<exists>e'. map_of ?m' (?l' ! i) = Some e' \<and> list_pos e' = i"
    if h: "i < length ?l'" for i
  proof (cases "i = ?p")
    case True
    with h pl have "?l' ! i = last l" by (simp add: nth_butlast)
    thus ?thesis using lw True by (simp add: mo)
  next
    case False
    from h have i: "i < ?n" "i < length l" by auto
    from bwd[OF i(2)] obtain e' where e': "map_of m (l ! i) = Some e'" "list_pos e' = i" by blast
    have a: "l ! i \<noteq> w" using e' w False by auto
    have b: "l ! i \<noteq> last l" using e' el i(1) by auto
    have "?l' ! i = l ! i" using h False by (simp add: nth_butlast)
    thus ?thesis using a b e' by (simp add: mo)
  qed
  have "list_ok ?m' ?l'" unfolding list_ok_def using 1 2 3 by blast
  thus ?thesis using el lw by blast
qed

lemma forget_pos_omap_erase: "forget_pos (omap_erase k m) = omap_erase k (forget_pos m)"
  by (induction m) (auto simp: forget_pos_def omap_erase_def)

lemma forget_pos_omap_modify_pos:
  "forget_pos (omap_modify k (\<lambda>x. x\<lparr>list_pos := p\<rparr>) m) = forget_pos m"
  by (induction m) (auto simp: forget_pos_def omap_modify_def)

lemma keys_forget_pos: "map fst (forget_pos m) = map fst m"
  by (simp add: forget_pos_def comp_def)

lemma map_of_forget_pos:
  "map_of (forget_pos m) k = map_option (\<lambda>e. e\<lparr>list_pos := 0\<rparr>) (map_of m k)"
  by (induction m) (auto simp: forget_pos_def)

lemma keys_ok_erase:
  assumes "keys_ok m"
  shows "keys_ok (omap_erase w m)" "keys_ok (omap_erase w (omap_modify k (\<lambda>x. x\<lparr>list_pos := p\<rparr>) m))"
  using assms
  by (auto simp: keys_ok_def keys_omap_erase keys_omap_modify map_of_omap_erase map_of_omap_modify
        removeAll_filter_not_eq sorted_wrt_filter split: if_splits)

lemma keys_ok_distinct: "keys_ok m \<Longrightarrow> distinct (map fst m)"
  unfolding keys_ok_def using strict_sorted_iff by blast

lemma EraseTx_absent: "map_of (m_orphans s) w = None \<Longrightarrow> EraseTx s w = Inr (s, 0)"
  by (simp add: EraseTx_def)

lemma EraseTx_coherent_present:
  assumes c: "coherent s" and w: "map_of (m_orphans s) w = Some e"
  shows "\<exists>s'. EraseTx s w = Inr (s', 1) \<and> coherent s' \<and>
              forget_pos (m_orphans s') = omap_erase w (forget_pos (m_orphans s)) \<and>
              m_peer_work_set s' = m_peer_work_set s \<and> m_next_sweep s' = m_next_sweep s"
proof -
  from c have k: "keys_ok (m_orphans s)" and l: "list_ok (m_orphans s) (m_orphan_list s)"
    and o: "outpoints_ok (m_orphans s) (m_outpoint_to_orphan_it s)"
    by (auto simp: coherent_def)
  note d = keys_ok_distinct[OF k]
  from l w have pos: "list_pos e < length (m_orphan_list s)" "m_orphan_list s ! list_pos e = w"
    unfolding list_ok_def by blast+
  let ?byprev = "fold (outpoint_erase w) (vin (tx e)) (m_outpoint_to_orphan_it s)"
  show ?thesis
  proof (cases "Suc (list_pos e) = length (m_orphan_list s)")
    case True
    let ?s' = "s\<lparr>m_orphans := omap_erase w (m_orphans s),
                    m_orphan_list := butlast (m_orphan_list s),
                    m_outpoint_to_orphan_it := ?byprev\<rparr>"
    have run: "EraseTx s w = Inr (?s', 1)"
      using w pos True by (simp add: EraseTx_def Let_def)
    have "outpoints_ok (omap_erase w (m_orphans s)) ?byprev"
      by (rule outpoints_ok_erase[OF o w]) (simp_all add: map_of_omap_erase)
    hence "coherent ?s'"
      using keys_ok_erase(1)[OF k] list_ok_erase_last[OF l d w True]
      by (simp add: coherent_def)
    thus ?thesis using run by (simp add: forget_pos_omap_erase)
  next
    case False
    let ?m' = "omap_erase w (omap_modify (last (m_orphan_list s)) (\<lambda>x. x\<lparr>list_pos := list_pos e\<rparr>) (m_orphans s))"
    let ?s' = "s\<lparr>m_orphans := ?m',
                    m_orphan_list := butlast ((m_orphan_list s)[list_pos e := last (m_orphan_list s)]),
                    m_outpoint_to_orphan_it := ?byprev\<rparr>"
    from list_ok_erase_swap[OF l d w False] obtain el where
      el: "map_of (m_orphans s) (last (m_orphan_list s)) = Some el" "last (m_orphan_list s) \<noteq> w"
      and l': "list_ok ?m' (butlast ((m_orphan_list s)[list_pos e := last (m_orphan_list s)]))"
      by blast
    have run: "EraseTx s w = Inr (?s', 1)"
      using w pos False el by (simp add: EraseTx_def Let_def)
    have "outpoints_ok ?m' ?byprev"
      by (rule outpoints_ok_erase[OF o w])
         (auto simp: map_of_omap_erase map_of_omap_modify el)
    hence "coherent ?s'"
      using keys_ok_erase(2)[OF k] l' by (simp add: coherent_def)
    thus ?thesis using run by (simp add: forget_pos_omap_erase forget_pos_omap_modify_pos)
  qed
qed

lemma coherent_empty: "coherent empty_orphanage"
  by (simp add: coherent_def keys_ok_def list_ok_def outpoints_ok_def empty_orphanage_def)

lemma map_of_omap_modify_Some:
  "map_of (omap_modify w f m) k = Some e' \<longleftrightarrow>
     (if k = w then \<exists>e. map_of m w = Some e \<and> e' = f e else map_of m k = Some e')"
  by (auto simp: map_of_omap_modify)

lemma list_ok_modify:
  assumes ok: "list_ok m l" and f: "\<And>e. list_pos (f e) = list_pos e"
  shows "list_ok (omap_modify w f m) l"
proof -
  have len: "length l = length m"
    and fwd: "\<And>k e. map_of m k = Some e \<Longrightarrow> list_pos e < length l \<and> l ! list_pos e = k"
    and bwd: "\<And>i. i < length l \<Longrightarrow> \<exists>e. map_of m (l ! i) = Some e \<and> list_pos e = i"
    using ok unfolding list_ok_def by blast+
  have 1: "length l = length (omap_modify w f m)" using len by (simp add: omap_modify_def)
  have 2: "list_pos e' < length l \<and> l ! list_pos e' = k"
    if h: "map_of (omap_modify w f m) k = Some e'" for k e'
  proof (cases "k = w")
    case True
    with h obtain e where "map_of m w = Some e" "e' = f e"
      by (auto simp: map_of_omap_modify_Some)
    with fwd[of w e] f[of e] True show ?thesis by simp
  next
    case False
    with h have "map_of m k = Some e'" by (simp add: map_of_omap_modify_Some)
    from fwd[OF this] show ?thesis .
  qed
  have 3: "\<exists>e'. map_of (omap_modify w f m) (l ! i) = Some e' \<and> list_pos e' = i"
    if h: "i < length l" for i
  proof -
    from bwd[OF h] obtain e where e: "map_of m (l ! i) = Some e" "list_pos e = i" by blast
    show ?thesis
    proof (cases "l ! i = w")
      case True
      with e have "map_of (omap_modify w f m) (l ! i) = Some (f e)"
        by (simp add: map_of_omap_modify_Some)
      thus ?thesis using e(2) f[of e] by simp
    next
      case False
      with e show ?thesis by (simp add: map_of_omap_modify_Some)
    qed
  qed
  show ?thesis unfolding list_ok_def using 1 2 3 by blast
qed

lemma outpoints_ok_modify:
  assumes ok: "outpoints_ok m byprev" and f: "\<And>e. tx (f e) = tx e"
  shows "outpoints_ok (omap_modify w f m) byprev"
proof -
  have "(\<exists>e. map_of (omap_modify w f m) k = Some e \<and> p \<in> set (vin (tx e))) \<longleftrightarrow>
        (\<exists>e. map_of m k = Some e \<and> p \<in> set (vin (tx e)))" for k p
    by (cases "k = w") (auto simp: map_of_omap_modify_Some f)
  thus ?thesis using ok unfolding outpoints_ok_def by simp
qed

lemma coherent_announcers:
  assumes "coherent s"
  shows "coherent (s\<lparr>m_orphans := omap_modify w (\<lambda>e. e\<lparr>announcers := f (announcers e)\<rparr>) (m_orphans s)\<rparr>)"
proof -
  let ?m' = "omap_modify w (\<lambda>e. e\<lparr>announcers := f (announcers e)\<rparr>) (m_orphans s)"
  from assms have k: "keys_ok (m_orphans s)" and l: "list_ok (m_orphans s) (m_orphan_list s)"
    and o: "outpoints_ok (m_orphans s) (m_outpoint_to_orphan_it s)"
    by (auto simp: coherent_def)
  have 1: "keys_ok ?m'"
    using k by (auto simp: keys_ok_def keys_omap_modify map_of_omap_modify split: if_splits)
  have 2: "list_ok ?m' (m_orphan_list s)"
    by (rule list_ok_modify[OF l]) simp
  have 3: "outpoints_ok ?m' (m_outpoint_to_orphan_it s)"
    by (rule outpoints_ok_modify[OF o]) simp
  show ?thesis using 1 2 3 by (simp add: coherent_def)
qed

lemma keys_ok_insort:
  assumes "keys_ok m" "map_of m k = None" "GetWitnessHash (tx e) = k"
  shows "keys_ok (insort_key fst (k, e) m)"
proof -
  have "k \<notin> fst ` set m" using assms(2) by (simp add: map_of_eq_None_iff)
  hence "sorted_wrt (<) (map fst (insort_key fst (k, e) m))"
    using assms(1) unfolding keys_ok_def strict_sorted_iff
    by (simp add: sorted_insort_key distinct_insort_key)
  thus ?thesis using assms by (auto simp: keys_ok_def map_of_insort_key)
qed

lemma list_ok_push_back:
  assumes ok: "list_ok m l" and w: "map_of m k = None" and p: "list_pos e = length l"
  shows "list_ok (insort_key fst (k, e) m) (l @ [k])"
proof -
  have len: "length l = length m"
    and fwd: "\<And>k e. map_of m k = Some e \<Longrightarrow> list_pos e < length l \<and> l ! list_pos e = k"
    and bwd: "\<And>i. i < length l \<Longrightarrow> \<exists>e. map_of m (l ! i) = Some e \<and> list_pos e = i"
    using ok unfolding list_ok_def by blast+
  have 1: "length (l @ [k]) = length (insort_key fst (k, e) m)" using len by simp
  have 2: "list_pos e' < length (l @ [k]) \<and> (l @ [k]) ! list_pos e' = k'"
    if h: "map_of (insort_key fst (k, e) m) k' = Some e'" for k' e'
  proof (cases "k' = k")
    case True
    with h w have "e' = e" by (simp add: map_of_insort_key)
    thus ?thesis using p True by simp
  next
    case False
    with h w have "map_of m k' = Some e'" by (simp add: map_of_insort_key)
    from fwd[OF this] show ?thesis by (simp add: nth_append)
  qed
  have 3: "\<exists>e'. map_of (insort_key fst (k, e) m) ((l @ [k]) ! i) = Some e' \<and> list_pos e' = i"
    if h: "i < length (l @ [k])" for i
  proof (cases "i = length l")
    case True
    thus ?thesis using w p by (simp add: map_of_insort_key)
  next
    case False
    with h have i: "i < length l" by simp
    from bwd[OF i] obtain e' where e': "map_of m (l ! i) = Some e'" "list_pos e' = i" by blast
    with w have "l ! i \<noteq> k" by auto
    thus ?thesis using e' i w by (simp add: map_of_insort_key nth_append)
  qed
  show ?thesis unfolding list_ok_def using 1 2 3 by blast
qed

lemma outpoints_ok_insert:
  assumes o: "outpoints_ok m byprev" and w: "map_of m k = None"
  shows "outpoints_ok (insort_key fst (k, e) m) (fold (outpoint_insert k) (vin (tx e)) byprev)"
proof -
  have ex: "\<And>p w'. (\<exists>S. byprev p = Some S \<and> w' \<in> S) \<longleftrightarrow>
            (\<exists>e. map_of m w' = Some e \<and> p \<in> set (vin (tx e)))"
    using o unfolding outpoints_ok_def by blast+
  let ?b = "fold (outpoint_insert k) (vin (tx e)) byprev"
  let ?m = "insort_key fst (k, e) m"
  have old: "\<not> (\<exists>S. byprev p = Some S \<and> k \<in> S)" for p
    using ex[of p k] w by simp
  have b: "(\<exists>S. ?b p = Some S \<and> w' \<in> S) \<longleftrightarrow>
           (w' = k \<and> p \<in> set (vin (tx e))) \<or> (\<exists>S. byprev p = Some S \<and> w' \<in> S)" for p w'
    using old[of p] by (auto simp: fold_outpoint_insert split: option.splits)
  have m: "(\<exists>e'. map_of ?m w' = Some e' \<and> p \<in> set (vin (tx e'))) \<longleftrightarrow>
           (w' = k \<and> p \<in> set (vin (tx e))) \<or> (\<exists>e'. map_of m w' = Some e' \<and> p \<in> set (vin (tx e')))" for p w'
    using w by (auto simp: map_of_insort_key)
  have 1: "(\<exists>S. ?b p = Some S \<and> w' \<in> S) \<longleftrightarrow> (\<exists>e'. map_of ?m w' = Some e' \<and> p \<in> set (vin (tx e')))" for p w'
    unfolding b m ex ..
  have ne: "\<And>p. byprev p \<noteq> Some {}"
    using o unfolding outpoints_ok_def by blast
  have 2: "?b p \<noteq> Some {}" for p
    using ne[of p] by (simp add: fold_outpoint_insert)
  show ?thesis unfolding outpoints_ok_def using 1 2 by blast
qed

lemma AddTx_coherent:
  assumes c: "coherent s"
  shows "\<exists>s' b. AddTx W now s t p ps = Inr (s', b) \<and> coherent s'"
proof (cases "map_of (m_orphans s) (GetWitnessHash t)")
  case (Some e)
  thus ?thesis using coherent_announcers[OF c] by (auto simp: AddTx_def Let_def)
next
  case None
  show ?thesis
  proof (cases "GetTransactionWeight t > W")
    case True
    with None c show ?thesis by (auto simp: AddTx_def Let_def)
  next
    case False
    from c have k: "keys_ok (m_orphans s)" and l: "list_ok (m_orphans s) (m_orphan_list s)"
      and o: "outpoints_ok (m_orphans s) (m_outpoint_to_orphan_it s)"
      by (auto simp: coherent_def)
    let ?e = "\<lparr>tx = t, announcers = {p}, nTimeExpire = now + ORPHAN_TX_EXPIRE_TIME,
               list_pos = length (m_orphan_list s), parent_txids = ps\<rparr>"
    have "keys_ok (insort_key fst (GetWitnessHash t, ?e) (m_orphans s))"
      by (rule keys_ok_insort[OF k None]) simp
    moreover have "list_ok (insort_key fst (GetWitnessHash t, ?e) (m_orphans s))
                     (m_orphan_list s @ [GetWitnessHash t])"
      by (rule list_ok_push_back[OF l None]) simp
    moreover have "outpoints_ok (insort_key fst (GetWitnessHash t, ?e) (m_orphans s))
                     (fold (outpoint_insert (GetWitnessHash t)) (vin t) (m_outpoint_to_orphan_it s))"
      using outpoints_ok_insert[OF o None, of ?e] by simp
    ultimately show ?thesis using None False
      by (auto simp: AddTx_def Let_def omap_emplace_def coherent_def)
  qed
qed

lemma map_of_forget_pos_Some:
  "map_of (forget_pos m) k = Some v \<Longrightarrow> \<exists>e. map_of m k = Some e \<and> v = e\<lparr>list_pos := 0\<rparr>"
  by (auto simp: map_of_forget_pos)

lemma distinct_keys_unique:
  "distinct (map fst m) \<Longrightarrow> map_of m k = Some v \<Longrightarrow> (k, v') \<in> set m \<Longrightarrow> v' = v"
  by (metis map_of_is_SomeI option.inject)

lemma sweep_loop_coherent:
  assumes "coherent s"
    and "distinct (map fst xs)"
    and "\<forall>kv \<in> set xs. map_of (forget_pos (m_orphans s)) (fst kv) = Some (snd kv)"
  shows "\<exists>s'. sweep_loop now (map fst xs) s erased mn =
                 Inr (s', erased @ map fst (filter (\<lambda>kv. nTimeExpire (snd kv) \<le> now) xs),
                      fold (\<lambda>kv mn. if nTimeExpire (snd kv) \<le> now then mn
                                     else min (nTimeExpire (snd kv)) mn) xs mn) \<and>
              coherent s' \<and>
              forget_pos (m_orphans s') =
                filter (\<lambda>kv. \<not> (kv \<in> set xs \<and> nTimeExpire (snd kv) \<le> now))
                  (forget_pos (m_orphans s)) \<and>
              m_peer_work_set s' = m_peer_work_set s \<and> m_next_sweep s' = m_next_sweep s"
  using assms
proof (induction xs arbitrary: s erased mn)
  case Nil
  thus ?case by simp
next
  case (Cons kv xs)
  obtain k v where kv: "kv = (k, v)" by (cases kv)
  let ?F = "forget_pos (m_orphans s)"
  from Cons.prems(3) kv have Fk: "map_of ?F k = Some v" by simp
  then obtain e where e: "map_of (m_orphans s) k = Some e" "v = e\<lparr>list_pos := 0\<rparr>"
    using map_of_forget_pos_Some by blast
  hence exp: "nTimeExpire v = nTimeExpire e" by simp
  from Cons.prems(1) have ko: "keys_ok (m_orphans s)" by (simp add: coherent_def)
  hence wk: "GetWitnessHash (tx e) = k" using e(1) by (auto simp: keys_ok_def)
  have dF: "distinct (map fst ?F)" using keys_ok_distinct[OF ko] by (simp add: keys_forget_pos)
  from Cons.prems(2) kv have kxs: "k \<notin> fst ` set xs" and dxs: "distinct (map fst xs)" by auto
  show ?case
  proof (cases "nTimeExpire e \<le> now")
    case True
    from EraseTx_coherent_present[OF Cons.prems(1) e(1)] obtain s1 where
      s1: "EraseTx s k = Inr (s1, 1)" "coherent s1"
          "forget_pos (m_orphans s1) = omap_erase k ?F"
          "m_peer_work_set s1 = m_peer_work_set s" "m_next_sweep s1 = m_next_sweep s"
      by blast
    have pre: "\<forall>kv \<in> set xs. map_of (forget_pos (m_orphans s1)) (fst kv) = Some (snd kv)"
    proof
      fix kv' assume h: "kv' \<in> set xs"
      hence "fst kv' \<noteq> k" using kxs by auto
      thus "map_of (forget_pos (m_orphans s1)) (fst kv') = Some (snd kv')"
        using Cons.prems(3) h by (simp add: s1(3) map_of_omap_erase)
    qed
    from Cons.IH[OF s1(2) dxs pre, of "erased @ [k]" mn] obtain s' where
      s': "sweep_loop now (map fst xs) s1 (erased @ [k]) mn =
                 Inr (s', (erased @ [k]) @ map fst (filter (\<lambda>kv. nTimeExpire (snd kv) \<le> now) xs),
                      fold (\<lambda>kv mn. if nTimeExpire (snd kv) \<le> now then mn
                                     else min (nTimeExpire (snd kv)) mn) xs mn)"
          "coherent s'"
          "forget_pos (m_orphans s') =
                filter (\<lambda>kv. \<not> (kv \<in> set xs \<and> nTimeExpire (snd kv) \<le> now))
                  (forget_pos (m_orphans s1))"
          "m_peer_work_set s' = m_peer_work_set s1" "m_next_sweep s' = m_next_sweep s1"
      by blast
    have run: "sweep_loop now (map fst (kv # xs)) s erased mn =
                 sweep_loop now (map fst xs) s1 (erased @ [k]) mn"
      using e(1) True wk s1(1) by (simp add: kv)
    have flt: "filter (\<lambda>kv. \<not> (kv \<in> set xs \<and> nTimeExpire (snd kv) \<le> now)) (omap_erase k ?F) =
               filter (\<lambda>kv'. \<not> (kv' \<in> set (kv # xs) \<and> nTimeExpire (snd kv') \<le> now)) ?F"
      unfolding omap_erase_def filter_filter
    proof (rule filter_cong[OF refl])
      fix x assume x: "x \<in> set ?F"
      show "(fst x \<noteq> k \<and> \<not> (x \<in> set xs \<and> nTimeExpire (snd x) \<le> now)) =
            (\<not> (x \<in> set (kv # xs) \<and> nTimeExpire (snd x) \<le> now))"
      proof (cases "fst x = k")
        case True
        with x have "snd x = v" using distinct_keys_unique[OF dF Fk, of "snd x"] by (cases x) auto
        with True have "x = kv" by (cases x) (simp add: kv)
        thus ?thesis using True \<open>nTimeExpire e \<le> now\<close> exp kv by simp
      next
        case False
        thus ?thesis by (auto simp: kv)
      qed
    qed
    show ?thesis
      using s' s1 True exp run flt by (simp add: kv)
  next
    case False
    have pre: "\<forall>kv \<in> set xs. map_of ?F (fst kv) = Some (snd kv)"
      using Cons.prems(3) by simp
    from Cons.IH[OF Cons.prems(1) dxs pre, of erased "min (nTimeExpire e) mn"] obtain s' where
      s': "sweep_loop now (map fst xs) s erased (min (nTimeExpire e) mn) =
                 Inr (s', erased @ map fst (filter (\<lambda>kv. nTimeExpire (snd kv) \<le> now) xs),
                      fold (\<lambda>kv mn. if nTimeExpire (snd kv) \<le> now then mn
                                     else min (nTimeExpire (snd kv)) mn) xs (min (nTimeExpire e) mn))"
          "coherent s'"
          "forget_pos (m_orphans s') =
                filter (\<lambda>kv. \<not> (kv \<in> set xs \<and> nTimeExpire (snd kv) \<le> now)) ?F"
          "m_peer_work_set s' = m_peer_work_set s" "m_next_sweep s' = m_next_sweep s"
      by blast
    have run: "sweep_loop now (map fst (kv # xs)) s erased mn =
                 sweep_loop now (map fst xs) s erased (min (nTimeExpire e) mn)"
      using e(1) False by (simp add: kv)
    have flt: "filter (\<lambda>kv. \<not> (kv \<in> set xs \<and> nTimeExpire (snd kv) \<le> now)) ?F =
               filter (\<lambda>kv'. \<not> (kv' \<in> set (kv # xs) \<and> nTimeExpire (snd kv') \<le> now)) ?F"
      using False exp by (intro filter_cong[OF refl]) (auto simp: kv)
    show ?thesis
      using s' False exp run flt by (simp add: kv)
  qed
qed

lemma length_forget_pos: "length (forget_pos m) = length m"
  by (simp add: forget_pos_def)

lemma evict_loop_coherent:
  assumes "coherent s"
  shows "\<exists>s' ev rng'. evict_loop mx s erased rng = Some (Inr (s', erased @ ev, rng')) \<and>
            coherent s' \<and>
            length (m_orphans s') = min mx (length (m_orphans s)) \<and>
            length ev = length (m_orphans s) - mx \<and>
            (length (m_orphans s) \<le> mx \<longrightarrow> s' = s \<and> rng' = rng) \<and>
            forget_pos (m_orphans s') =
              filter (\<lambda>kv. fst kv \<notin> set ev) (forget_pos (m_orphans s)) \<and>
            set ev \<subseteq> fst ` set (m_orphans s) \<and>
            m_peer_work_set s' = m_peer_work_set s \<and> m_next_sweep s' = m_next_sweep s"
  using assms
proof (induction "length (m_orphans s)" arbitrary: s erased rng)
  case 0
  thus ?case by (subst evict_loop.simps) simp
next
  case (Suc n)
  show ?case
  proof (cases "length (m_orphans s) > mx")
    case False
    thus ?thesis using Suc.prems by (subst evict_loop.simps) simp
  next
    case True
    from Suc.prems have ko: "keys_ok (m_orphans s)"
      and lo: "list_ok (m_orphans s) (m_orphan_list s)" by (auto simp: coherent_def)
    let ?l = "m_orphan_list s"
    let ?pos = "rng 0 mod length ?l"
    let ?F = "forget_pos (m_orphans s)"
    from lo Suc.hyps(2) have len: "length ?l = Suc n" by (simp add: list_ok_def)
    hence ne: "?l \<noteq> []" and pos: "?pos < length ?l" by auto
    from lo pos obtain e where e: "map_of (m_orphans s) (?l ! ?pos) = Some e"
      unfolding list_ok_def by blast
    let ?w = "?l ! ?pos"
    from ko e have wk: "GetWitnessHash (tx e) = ?w" by (auto simp: keys_ok_def)
    from EraseTx_coherent_present[OF Suc.prems e] obtain s1 where
      s1: "EraseTx s ?w = Inr (s1, 1)" "coherent s1"
          "forget_pos (m_orphans s1) = omap_erase ?w ?F"
          "m_peer_work_set s1 = m_peer_work_set s" "m_next_sweep s1 = m_next_sweep s"
      by blast
    have dF: "distinct (map fst ?F)" using keys_ok_distinct[OF ko] by (simp add: keys_forget_pos)
    have "map_of ?F ?w = Some (e\<lparr>list_pos := 0\<rparr>)" using e by (simp add: map_of_forget_pos)
    from length_omap_erase[OF dF this] have "Suc (length (forget_pos (m_orphans s1))) = length ?F"
      by (simp add: s1(3))
    hence n1: "n = length (m_orphans s1)" and n1': "length (m_orphans s) = Suc (length (m_orphans s1))"
      using Suc.hyps(2) by (simp_all add: length_forget_pos)
    from Suc.hyps(1)[OF n1 s1(2), of "erased @ [?w]" "\<lambda>i. rng (Suc i)"] obtain s' ev rng' where
      r: "evict_loop mx s1 (erased @ [?w]) (\<lambda>i. rng (Suc i)) = Some (Inr (s', (erased @ [?w]) @ ev, rng'))"
         "coherent s'"
         "length (m_orphans s') = min mx (length (m_orphans s1))"
         "length ev = length (m_orphans s1) - mx"
         "forget_pos (m_orphans s') =
              filter (\<lambda>kv. fst kv \<notin> set ev) (forget_pos (m_orphans s1))"
         "set ev \<subseteq> fst ` set (m_orphans s1)"
         "m_peer_work_set s' = m_peer_work_set s1" "m_next_sweep s' = m_next_sweep s1"
      by blast
    have run: "evict_loop mx s erased rng = evict_loop mx s1 (erased @ [?w]) (\<lambda>i. rng (Suc i))"
      using True ne e wk s1(1) by (subst evict_loop.simps) (simp add: Let_def)
    have keys1: "fst ` set (m_orphans s1) \<subseteq> fst ` set (m_orphans s)"
    proof -
      have "map fst (m_orphans s1) = removeAll ?w (map fst (m_orphans s))"
        using arg_cong[OF s1(3), of "map fst"] by (simp add: keys_forget_pos keys_omap_erase)
      hence "set (map fst (m_orphans s1)) \<subseteq> set (map fst (m_orphans s))" by auto
      thus ?thesis by simp
    qed
    have win: "?w \<in> fst ` set (m_orphans s)"
      using e by (metis map_of_eq_None_iff option.distinct(1))
    have 1: "length (m_orphans s') = min mx (length (m_orphans s))"
      using r(3) True n1' by simp
    have 2: "length (?w # ev) = length (m_orphans s) - mx"
      using r(4) True n1' by simp
    have 3: "forget_pos (m_orphans s') = filter (\<lambda>kv. fst kv \<notin> set (?w # ev)) ?F"
      unfolding r(5) s1(3) omap_erase_def filter_filter
      by (rule filter_cong[OF refl]) auto
    have 4: "set (?w # ev) \<subseteq> fst ` set (m_orphans s)"
      using r(6) keys1 win by auto
    show ?thesis
      apply (rule exI[of _ s'], rule exI[of _ "?w # ev"], rule exI[of _ rng'])
      using run r(1,2,7,8) s1(4,5) 1 2 3 4 True by simp
  qed
qed


lemma EraseTx_coherent:
  assumes c: "coherent s"
  shows "\<exists>s' r. EraseTx s w = Inr (s', r) \<and> coherent s' \<and>
              forget_pos (m_orphans s') = omap_erase w (forget_pos (m_orphans s)) \<and>
              m_peer_work_set s' = m_peer_work_set s \<and> m_next_sweep s' = m_next_sweep s"
proof (cases "map_of (m_orphans s) w")
  case None
  hence "w \<notin> fst ` set (forget_pos (m_orphans s))"
    by (metis keys_forget_pos map_of_eq_None_iff set_map)
  hence "omap_erase w (forget_pos (m_orphans s)) = forget_pos (m_orphans s)"
    unfolding omap_erase_def by (intro filter_True) auto
  thus ?thesis using None c by (simp add: EraseTx_absent)
next
  case (Some e)
  from EraseTx_coherent_present[OF c Some] show ?thesis by blast
qed

lemma LimitOrphans_coherent:
  assumes c: "coherent s"
  shows "\<exists>s' ws rng'. LimitOrphans now s mx rng = Some (Inr (s', ws, rng')) \<and> coherent s' \<and>
            length (m_orphans s') \<le> mx"
proof (cases "m_next_sweep s \<le> now")
  case True
  let ?F = "forget_pos (m_orphans s)"
  have d: "distinct (map fst ?F)"
    using c keys_ok_distinct by (simp add: coherent_def keys_forget_pos)
  have pre: "\<forall>kv \<in> set ?F. map_of ?F (fst kv) = Some (snd kv)"
    using d by simp
  from sweep_loop_coherent[OF c d pre, of now "[]" "now + ORPHAN_TX_EXPIRE_TIME - ORPHAN_TX_EXPIRE_INTERVAL"]
  obtain s1 er mn where s1: "sweep_loop now (map fst (m_orphans s)) s []
        (now + ORPHAN_TX_EXPIRE_TIME - ORPHAN_TX_EXPIRE_INTERVAL) = Inr (s1, er, mn)" "coherent s1"
    by (auto simp: keys_forget_pos)
  let ?s2 = "s1\<lparr>m_next_sweep := mn + ORPHAN_TX_EXPIRE_INTERVAL\<rparr>"
  have c2: "coherent ?s2" using s1(2) by (simp add: coherent_def)
  from evict_loop_coherent[OF c2, of mx er rng] obtain s' ev rng' where
    "evict_loop mx ?s2 er rng = Some (Inr (s', er @ ev, rng'))" "coherent s'"
    "length (m_orphans s') = min mx (length (m_orphans ?s2))"
    by blast
  thus ?thesis using True s1(1) by (simp add: LimitOrphans_def)
next
  case False
  from evict_loop_coherent[OF c, of mx "[]" rng] obtain s' ev rng' where
    "evict_loop mx s [] rng = Some (Inr (s', [] @ ev, rng'))" "coherent s'"
    "length (m_orphans s') = min mx (length (m_orphans s))"
    by blast
  thus ?thesis using False by (simp add: LimitOrphans_def)
qed

lemma run_call_coherent:
  assumes "coherent s"
  shows "\<exists>s'. run_call W s c = Some (Inr s') \<and> coherent s'"
proof (cases c)
  case (Call_AddTx now t p ps)
  from AddTx_coherent[OF assms, of W now t p ps] show ?thesis
    by (auto simp: Call_AddTx)
next
  case (Call_EraseTx w)
  from EraseTx_coherent[OF assms, of w] show ?thesis
    by (auto simp: Call_EraseTx)
next
  case (Call_LimitOrphans now mx rng)
  from LimitOrphans_coherent[OF assms, of now mx rng] show ?thesis
    by (auto simp: Call_LimitOrphans)
qed

lemma run_calls_coherent:
  "coherent s \<Longrightarrow> \<exists>s'. run_calls W s cs = Some (Inr s') \<and> coherent s'"
proof (induction cs arbitrary: s)
  case Nil
  thus ?case by simp
next
  case (Cons c cs)
  from run_call_coherent[OF Cons.prems, of W c] obtain s1 where
    "run_call W s c = Some (Inr s1)" "coherent s1" by blast
  with Cons.IH[OF this(2)] show ?case by simp
qed

lemma coherent_claimed:
  assumes c: "coherent s"
  shows "length (m_orphan_list s) = length (m_orphans s)"
    and "distinct (map fst (m_orphans s))"
    and "\<forall>(k, e) \<in> set (m_orphans s).
            list_pos e < length (m_orphan_list s) \<and> m_orphan_list s ! list_pos e = k"
    and "{(p, w). \<exists>S. m_outpoint_to_orphan_it s p = Some S \<and> w \<in> S} =
         {(p, w). \<exists>e. (w, e) \<in> set (m_orphans s) \<and> p \<in> set (vin (tx e))}"
proof -
  from c have k: "keys_ok (m_orphans s)" and l: "list_ok (m_orphans s) (m_orphan_list s)"
    and o: "outpoints_ok (m_orphans s) (m_outpoint_to_orphan_it s)"
    by (auto simp: coherent_def)
  show "length (m_orphan_list s) = length (m_orphans s)" using l by (simp add: list_ok_def)
  show d: "distinct (map fst (m_orphans s))" by (rule keys_ok_distinct[OF k])
  have mem: "(w, e) \<in> set (m_orphans s) \<longleftrightarrow> map_of (m_orphans s) w = Some e" for w e
    using d by (auto dest: map_of_SomeD)
  show "\<forall>(k, e) \<in> set (m_orphans s).
            list_pos e < length (m_orphan_list s) \<and> m_orphan_list s ! list_pos e = k"
    using l unfolding list_ok_def mem[symmetric] by blast
  show "{(p, w). \<exists>S. m_outpoint_to_orphan_it s p = Some S \<and> w \<in> S} =
         {(p, w). \<exists>e. (w, e) \<in> set (m_orphans s) \<and> p \<in> set (vin (tx e))}"
  proof -
    have "(\<exists>S. m_outpoint_to_orphan_it s p = Some S \<and> w \<in> S) \<longleftrightarrow>
          (\<exists>e. (w, e) \<in> set (m_orphans s) \<and> p \<in> set (vin (tx e)))" for p w
      using o unfolding outpoints_ok_def mem by blast
    thus ?thesis by simp
  qed
qed

text \<open>
  C1. Take any finite sequence of \<^verbatim>\<open>AddTx\<close>, \<^verbatim>\<open>EraseTx\<close> and \<^verbatim>\<open>LimitOrphans\<close> calls on an
  orphanage that starts empty, whenever its first sweep is due. After each call (after every prefix of the sequence) the
  run has returned without abort, the list is as long as the map has entries, the keys
  of the map are distinct, every entry's \<open>list_pos\<close> is a valid index of the list and the
  list holds the entry's own handle there, and the outpoint index is exactly the set of
  pairs of a prevout and the wtxid of a live entry that spends it.
\<close>

theorem orphanage_indices_cohere:
  "\<exists>s. run_calls W (empty_orphanage\<lparr>m_next_sweep := t0\<rparr>) (take n cs) = Some (Inr s) \<and>
        length (m_orphan_list s) = length (m_orphans s) \<and>
        distinct (map fst (m_orphans s)) \<and>
        (\<forall>(k, e) \<in> set (m_orphans s).
            list_pos e < length (m_orphan_list s) \<and> m_orphan_list s ! list_pos e = k) \<and>
        {(p, w). \<exists>S. m_outpoint_to_orphan_it s p = Some S \<and> w \<in> S} =
          {(p, w). \<exists>e. (w, e) \<in> set (m_orphans s) \<and> p \<in> set (vin (tx e))}"
proof -
  have "coherent (empty_orphanage\<lparr>m_next_sweep := t0\<rparr>)"
    using coherent_empty by (simp add: coherent_def)
  from run_calls_coherent[OF this, of W "take n cs"] obtain s where
    s: "run_calls W (empty_orphanage\<lparr>m_next_sweep := t0\<rparr>) (take n cs) = Some (Inr s)" "coherent s"
    by blast
  show ?thesis using s(1) coherent_claimed[OF s(2)] by blast
qed

lemma expired_keys_forget_pos:
  "map fst (filter (\<lambda>kv. P (nTimeExpire (snd kv))) (forget_pos m)) =
   map fst (filter (\<lambda>kv. P (nTimeExpire (snd kv))) m)"
  by (induction m) (auto simp: forget_pos_def)

lemma expiries_forget_pos:
  "map (nTimeExpire \<circ> snd) (filter (\<lambda>kv. P (nTimeExpire (snd kv))) (forget_pos m)) =
   map (nTimeExpire \<circ> snd) (filter (\<lambda>kv. P (nTimeExpire (snd kv))) m)"
  by (induction m) (auto simp: forget_pos_def)

lemma Min_insert_min:
  "finite S \<Longrightarrow> Min (insert (min a b) S) = Min (insert b (insert a S))" for a :: int
  by (cases "S = {}") (simp_all add: min.assoc min.commute min.left_commute)

lemma fold_min_expiry:
  "fold (\<lambda>kv mn. if nTimeExpire (snd kv) \<le> now then mn else min (nTimeExpire (snd kv)) mn) xs mn =
   Min (set (mn # map (nTimeExpire \<circ> snd) (filter (\<lambda>kv. now < nTimeExpire (snd kv)) xs)))"
proof (induction xs arbitrary: mn)
  case Nil
  show ?case by simp
next
  case (Cons x xs)
  let ?L = "map (nTimeExpire \<circ> snd) (filter (\<lambda>kv. now < nTimeExpire (snd kv)) xs)"
  show ?case
  proof (cases "nTimeExpire (snd x) \<le> now")
    case True
    thus ?thesis using Cons.IH[of mn] by simp
  next
    case False
    have "Min (set (min (nTimeExpire (snd x)) mn # ?L)) = Min (set (mn # nTimeExpire (snd x) # ?L))"
      using Min_insert_min[of "set ?L" "nTimeExpire (snd x)" mn] by simp
    thus ?thesis using False Cons.IH[of "min (nTimeExpire (snd x)) mn"] by simp
  qed
qed

text \<open>
  C4, amended. When \<^verbatim>\<open>LimitOrphans\<close> is called on a coherent orphanage with
  \<open>m_next_sweep \<le> now\<close>, it returns; the returned vector begins with the wtxids of exactly
  the entries whose expiry is at most \<open>now\<close>, in key order, followed by the wtxids \<open>ev\<close> of
  the entries evicted at random, of which there are as many as the unexpired entries
  exceed \<open>max_orphans\<close>; the entries left are the unexpired ones that were not evicted; and
  the next sweep is due at the minimum of \<open>now + ORPHAN_TX_EXPIRE_TIME -
  ORPHAN_TX_EXPIRE_INTERVAL\<close> and the expiries of the entries that survived the sweep, plus
  \<open>ORPHAN_TX_EXPIRE_INTERVAL\<close>.
\<close>

theorem LimitOrphans_expiry_sweep:
  assumes c: "coherent s" and due: "m_next_sweep s \<le> now"
  shows "\<exists>s' ev rng'.
           LimitOrphans now s mx rng =
             Some (Inr (s', map fst (filter (\<lambda>kv. nTimeExpire (snd kv) \<le> now) (m_orphans s)) @ ev, rng')) \<and>
           forget_pos (m_orphans s') =
             filter (\<lambda>kv. now < nTimeExpire (snd kv) \<and> fst kv \<notin> set ev) (forget_pos (m_orphans s)) \<and>
           length ev = length (filter (\<lambda>kv. now < nTimeExpire (snd kv)) (m_orphans s)) - mx \<and>
           m_next_sweep s' =
             Min (set ((now + ORPHAN_TX_EXPIRE_TIME - ORPHAN_TX_EXPIRE_INTERVAL) #
                       map (nTimeExpire \<circ> snd) (filter (\<lambda>kv. now < nTimeExpire (snd kv)) (m_orphans s))))
             + ORPHAN_TX_EXPIRE_INTERVAL"
proof -
  let ?F = "forget_pos (m_orphans s)"
  let ?start = "now + ORPHAN_TX_EXPIRE_TIME - ORPHAN_TX_EXPIRE_INTERVAL"
  let ?mn = "Min (set (?start # map (nTimeExpire \<circ> snd) (filter (\<lambda>kv. now < nTimeExpire (snd kv)) (m_orphans s))))"
  let ?er = "map fst (filter (\<lambda>kv. nTimeExpire (snd kv) \<le> now) (m_orphans s))"
  have d: "distinct (map fst ?F)"
    using c keys_ok_distinct by (simp add: coherent_def keys_forget_pos)
  have pre: "\<forall>kv \<in> set ?F. map_of ?F (fst kv) = Some (snd kv)"
    using d by simp
  from sweep_loop_coherent[where s=s and xs="?F" and now=now and erased="[]" and mn="?start", OF c d pre]
  obtain s1 where raw:
    "sweep_loop now (map fst ?F) s [] ?start =
       Inr (s1, [] @ map fst (filter (\<lambda>kv. nTimeExpire (snd kv) \<le> now) ?F),
            fold (\<lambda>kv mn. if nTimeExpire (snd kv) \<le> now then mn
                           else min (nTimeExpire (snd kv)) mn) ?F ?start)"
    "coherent s1"
    "forget_pos (m_orphans s1) = filter (\<lambda>kv. \<not> (kv \<in> set ?F \<and> nTimeExpire (snd kv) \<le> now)) ?F"
    by blast
  have s1: "sweep_loop now (map fst (m_orphans s)) s [] ?start = Inr (s1, ?er, ?mn)"
    using raw(1) expired_keys_forget_pos[of "\<lambda>t. t \<le> now" "m_orphans s"]
      expiries_forget_pos[of "\<lambda>t. now < t" "m_orphans s"]
    by (simp only: keys_forget_pos fold_min_expiry append_Nil)
  note s1 = s1 raw(2,3)
  have F1: "forget_pos (m_orphans s1) = filter (\<lambda>kv. now < nTimeExpire (snd kv)) ?F"
    unfolding s1(3) by (rule filter_cong[OF refl]) auto
  have len1: "length (m_orphans s1) = length (filter (\<lambda>kv. now < nTimeExpire (snd kv)) (m_orphans s))"
    using arg_cong[OF F1, of "\<lambda>l. length (map fst l)"] expired_keys_forget_pos[of "\<lambda>t. now < t" "m_orphans s"]
    by (simp add: length_forget_pos)
  let ?s2 = "s1\<lparr>m_next_sweep := ?mn + ORPHAN_TX_EXPIRE_INTERVAL\<rparr>"
  have c2: "coherent ?s2" using s1(2) by (simp add: coherent_def)
  from evict_loop_coherent[OF c2, of mx ?er rng] obtain s' ev rng' where r:
    "evict_loop mx ?s2 ?er rng = Some (Inr (s', ?er @ ev, rng'))"
    "length ev = length (m_orphans ?s2) - mx"
    "forget_pos (m_orphans s') = filter (\<lambda>kv. fst kv \<notin> set ev) (forget_pos (m_orphans ?s2))"
    "m_next_sweep s' = m_next_sweep ?s2"
    by blast
  have run: "LimitOrphans now s mx rng = Some (Inr (s', ?er @ ev, rng'))"
    using due s1(1) r(1) by (simp add: LimitOrphans_def)
  have F': "forget_pos (m_orphans s') =
             filter (\<lambda>kv. now < nTimeExpire (snd kv) \<and> fst kv \<notin> set ev) ?F"
    using r(3) F1 by (simp add: conj_commute)
  show ?thesis using run F' r(2,4) len1 by simp
qed

lemmas orphanage_eval =
  AddTx_def EraseTx_def LimitOrphans_def empty_orphanage_def
  child_tx_def parent_tx_def omap_emplace_def omap_erase_def omap_modify_def Let_def
  ORPHAN_TX_EXPIRE_TIME_def ORPHAN_TX_EXPIRE_INTERVAL_def evict_loop.simps zero_rng_def

lemma coherent_after_calls: "coherent (after_calls cs)"
  using run_calls_coherent[OF coherent_empty, of 400000 cs] by (auto simp: after_calls_def)

lemma two_orphans_fields:
  "m_orphans two_orphans =
     [(11, \<lparr>tx = parent_tx, announcers = {8}, nTimeExpire = 1205, list_pos = 1, parent_txids = []\<rparr>),
      (21, \<lparr>tx = child_tx, announcers = {7}, nTimeExpire = 1200, list_pos = 0, parent_txids = [10]\<rparr>)]"
  "m_orphan_list two_orphans = [21, 11]"
  "m_next_sweep two_orphans = 0"
  by (simp_all add: two_orphans_def after_calls_def example_calls_def orphanage_eval)

theorem orphanage_indices_cohere_witness:
  "\<exists>s. run_calls 400000 (empty_orphanage\<lparr>m_next_sweep := 0\<rparr>) (take 4 example_calls) = Some (Inr s) \<and>
        map fst (m_orphans s) = [11] \<and> m_orphan_list s = [11] \<and>
        length (m_orphan_list s) = length (m_orphans s) \<and>
        distinct (map fst (m_orphans s))"
proof -
  have "map_option (map_sum id (\<lambda>s. (map fst (m_orphans s), m_orphan_list s)))
          (run_calls 400000 (empty_orphanage\<lparr>m_next_sweep := 0\<rparr>) (take 4 example_calls)) =
        Some (Inr ([11], [11]))"
    by (simp add: example_calls_def orphanage_eval)
  thus ?thesis
    using orphanage_indices_cohere[of 400000 0 4 example_calls] by auto
qed

theorem LimitOrphans_expiry_sweep_witness:
  "\<exists>s' rng'. LimitOrphans 2000 two_orphans 5 zero_rng = Some (Inr (s', [11, 21], rng')) \<and>
        m_orphans s' = [] \<and> m_next_sweep s' = 3200"
proof -
  have "coherent two_orphans" unfolding two_orphans_def by (rule coherent_after_calls)
  moreover have "m_next_sweep two_orphans \<le> 2000" by (simp add: two_orphans_fields)
  ultimately show ?thesis
    using LimitOrphans_expiry_sweep[of two_orphans 2000 5 zero_rng]
    by (auto simp: two_orphans_fields forget_pos_def ORPHAN_TX_EXPIRE_TIME_def ORPHAN_TX_EXPIRE_INTERVAL_def)
qed

text \<open>
  C4 as claimed fails. Two entries expire at 1205 and 1200; at time 10, with room for one
  orphan, the sweep is due and expires nothing, yet the entry 21 is erased (by eviction),
  and the next sweep is set to 1210, not to the least surviving expiry plus the interval,
  which is 1505.
\<close>

theorem LimitOrphans_claimed_sweep_counterexample:
  "map (\<lambda>kv. (fst kv, nTimeExpire (snd kv))) (m_orphans two_orphans) = [(11, 1205), (21, 1200)] \<and>
   m_next_sweep two_orphans \<le> 10 \<and>
   sweep_outcome (LimitOrphans 10 two_orphans 1 zero_rng) = Some ([21], [1205], 1210) \<and>
   Min (set [1205]) + ORPHAN_TX_EXPIRE_INTERVAL = 1505"
  by (simp add: sweep_outcome_def two_orphans_def after_calls_def example_calls_def orphanage_eval)


text \<open>
  C8. \<^verbatim>\<open>EraseOrphanOfPeer(w, p)\<close>. When the map has no entry for \<open>w\<close> the whole state, work sets
  included, is returned unchanged. Otherwise let \<open>s1\<close> be the state with \<open>w\<close> removed from
  the work set of \<open>p\<close> (when \<open>p\<close> has one). If \<open>p\<close> is not an announcer of the entry the
  result is \<open>s1\<close>. If \<open>p\<close> is the sole announcer the result is that of \<^verbatim>\<open>EraseTx\<close> on \<open>s1\<close>,
  which on a coherent orphanage erases the entry and nothing else. If \<open>p\<close> is one of several
  announcers, the result is \<open>s1\<close> with \<open>p\<close> removed from the announcers of the entry.
\<close>

theorem EraseOrphanOfPeer_cases:
  "(map_of (m_orphans s) w = None \<longrightarrow> EraseOrphanOfPeer s w p = Inr s) \<and>
   (\<forall>e. map_of (m_orphans s) w = Some e \<longrightarrow>
      (let s1 = s\<lparr>m_peer_work_set :=
                    (case m_peer_work_set s p of
                       None \<Rightarrow> m_peer_work_set s
                     | Some ws \<Rightarrow> (m_peer_work_set s)(p \<mapsto> ws - {w}))\<rparr>
       in (p \<notin> announcers e \<longrightarrow> EraseOrphanOfPeer s w p = Inr s1) \<and>
          (announcers e = {p} \<longrightarrow>
             EraseOrphanOfPeer s w p = map_sum id fst (EraseTx s1 w) \<and>
             (coherent s \<longrightarrow>
                (\<exists>s'. EraseOrphanOfPeer s w p = Inr s' \<and> coherent s' \<and>
                      map_of (m_orphans s') w = None \<and>
                      forget_pos (m_orphans s') = omap_erase w (forget_pos (m_orphans s)) \<and>
                      m_peer_work_set s' = m_peer_work_set s1))) \<and>
          (p \<in> announcers e \<and> announcers e \<noteq> {p} \<longrightarrow>
             EraseOrphanOfPeer s w p =
               Inr (s1\<lparr>m_orphans :=
                         omap_modify w (\<lambda>e. e\<lparr>announcers := announcers e - {p}\<rparr>) (m_orphans s)\<rparr>))))"
proof (intro conjI allI impI)
  assume "map_of (m_orphans s) w = None"
  thus "EraseOrphanOfPeer s w p = Inr s" by (simp add: EraseOrphanOfPeer_def)
next
  fix e assume e: "map_of (m_orphans s) w = Some e"
  let ?s1 = "s\<lparr>m_peer_work_set :=
                    (case m_peer_work_set s p of
                       None \<Rightarrow> m_peer_work_set s
                     | Some ws \<Rightarrow> (m_peer_work_set s)(p \<mapsto> ws - {w}))\<rparr>"
  have s1: "(case m_peer_work_set s p of
               None \<Rightarrow> s
             | Some ws \<Rightarrow> s\<lparr>m_peer_work_set := (m_peer_work_set s)(p \<mapsto> ws - {w})\<rparr>) = ?s1"
    by (simp split: option.splits)
  have sole: "p \<in> announcers e \<and> card (announcers e) = 1 \<longleftrightarrow> announcers e = {p}"
  proof
    assume h: "p \<in> announcers e \<and> card (announcers e) = 1"
    then obtain x where "announcers e = {x}" using card_1_singletonE by metis
    with h show "announcers e = {p}" by auto
  qed simp
  have a: "p \<notin> announcers e \<Longrightarrow> EraseOrphanOfPeer s w p = Inr ?s1"
    using e s1 by (simp add: EraseOrphanOfPeer_def Let_def)
  have b: "announcers e = {p} \<Longrightarrow> EraseOrphanOfPeer s w p = map_sum id fst (EraseTx ?s1 w)"
    using e s1 by (simp add: EraseOrphanOfPeer_def Let_def)
  have c: "EraseOrphanOfPeer s w p =
               Inr (?s1\<lparr>m_orphans :=
                         omap_modify w (\<lambda>e. e\<lparr>announcers := announcers e - {p}\<rparr>) (m_orphans s)\<rparr>)"
    if "p \<in> announcers e \<and> announcers e \<noteq> {p}"
  proof -
    from that sole have "card (announcers e) \<noteq> 1" by blast
    moreover have "m_orphans ?s1 = m_orphans s" by simp
    ultimately show ?thesis
      using e that unfolding EraseOrphanOfPeer_def Let_def s1 by simp
  qed
  have d: "\<exists>s'. EraseOrphanOfPeer s w p = Inr s' \<and> coherent s' \<and>
                      map_of (m_orphans s') w = None \<and>
                      forget_pos (m_orphans s') = omap_erase w (forget_pos (m_orphans s)) \<and>
                      m_peer_work_set s' = m_peer_work_set ?s1"
    if h: "announcers e = {p}" "coherent s"
  proof -
    have c1: "coherent ?s1" using h(2) by (simp add: coherent_def)
    from EraseTx_coherent[OF c1, of w] obtain s' r where
      r: "EraseTx ?s1 w = Inr (s', r)" "coherent s'"
         "forget_pos (m_orphans s') = omap_erase w (forget_pos (m_orphans ?s1))"
         "m_peer_work_set s' = m_peer_work_set ?s1"
      by blast
    from r(3) have "map_of (forget_pos (m_orphans s')) w = None"
      by (simp add: map_of_omap_erase)
    hence "map_of (m_orphans s') w = None" by (simp add: map_of_forget_pos)
    thus ?thesis using b[OF h(1)] r by simp
  qed
  show "let s1 = ?s1
       in (p \<notin> announcers e \<longrightarrow> EraseOrphanOfPeer s w p = Inr s1) \<and>
          (announcers e = {p} \<longrightarrow>
             EraseOrphanOfPeer s w p = map_sum id fst (EraseTx s1 w) \<and>
             (coherent s \<longrightarrow>
                (\<exists>s'. EraseOrphanOfPeer s w p = Inr s' \<and> coherent s' \<and>
                      map_of (m_orphans s') w = None \<and>
                      forget_pos (m_orphans s') = omap_erase w (forget_pos (m_orphans s)) \<and>
                      m_peer_work_set s' = m_peer_work_set s1))) \<and>
          (p \<in> announcers e \<and> announcers e \<noteq> {p} \<longrightarrow>
             EraseOrphanOfPeer s w p =
               Inr (s1\<lparr>m_orphans :=
                         omap_modify w (\<lambda>e. e\<lparr>announcers := announcers e - {p}\<rparr>) (m_orphans s)\<rparr>))"
    unfolding Let_def using a b c d by blast
qed

theorem EraseOrphanOfPeer_cases_witness:
  "\<exists>s'. EraseOrphanOfPeer two_orphans 21 7 = Inr s' \<and> map_of (m_orphans s') 21 = None \<and>
        map fst (m_orphans s') = [11]"
proof -
  have c: "coherent two_orphans" unfolding two_orphans_def by (rule coherent_after_calls)
  have e: "map_of (m_orphans two_orphans) 21 =
             Some \<lparr>tx = child_tx, announcers = {7}, nTimeExpire = 1200, list_pos = 0, parent_txids = [10]\<rparr>"
    by (simp add: two_orphans_fields)
  note t = EraseOrphanOfPeer_cases[of two_orphans 21 7, THEN conjunct2, rule_format, OF e,
      unfolded Let_def, THEN conjunct2, THEN conjunct1, rule_format]
  have "announcers \<lparr>tx = child_tx, announcers = {7}, nTimeExpire = 1200, list_pos = 0,
          parent_txids = [10]\<rparr> = {7}" by simp
  from t[OF this, THEN conjunct2, rule_format, OF c] obtain s' where
    s': "EraseOrphanOfPeer two_orphans 21 7 = Inr s'" "map_of (m_orphans s') 21 = None"
        "forget_pos (m_orphans s') = omap_erase 21 (forget_pos (m_orphans two_orphans))"
    by blast
  from arg_cong[OF s'(3), of "map fst"] have "map fst (m_orphans s') = [11]"
    by (simp add: keys_forget_pos keys_omap_erase two_orphans_fields)
  with s'(1,2) show ?thesis by auto
qed

lemma count_list_distinct: "distinct xs \<Longrightarrow> count_list xs x = (if x \<in> set xs then 1 else 0)"
  by (induction xs) auto

lemma outpoints_ok_live:
  assumes "outpoints_ok m byprev" "byprev p = Some S"
  shows "S \<subseteq> fst ` set m" "finite S"
proof -
  show "S \<subseteq> fst ` set m"
  proof
    fix w assume "w \<in> S"
    with assms obtain e where "map_of m w = Some e" unfolding outpoints_ok_def by blast
    thus "w \<in> fst ` set m" by (metis map_of_eq_None_iff option.distinct(1))
  qed
  thus "finite S" by (rule finite_subset) simp
qed

lemma gather_set_live:
  assumes "keys_ok (m_orphans s)" "set hs \<subseteq> fst ` set (m_orphans s)"
  shows "gather_set s hs acc = Inr (acc @ hs)"
  using assms(2)
proof (induction hs arbitrary: acc)
  case Nil
  show ?case by simp
next
  case (Cons h hs)
  then obtain e where e: "map_of (m_orphans s) h = Some e"
    by (metis list.set_intros(1) map_of_eq_None_iff not_Some_eq subsetD)
  with assms(1) have "GetWitnessHash (tx e) = h" by (auto simp: keys_ok_def)
  with e Cons show ?case by simp
qed

lemma gather_inputs_coherent:
  assumes "coherent s"
  shows "gather_inputs s ps acc = Inr (acc @ concat (map (spenders s) ps))"
proof (induction ps arbitrary: acc)
  case Nil
  show ?case by simp
next
  case (Cons p ps)
  from assms have k: "keys_ok (m_orphans s)"
    and o: "outpoints_ok (m_orphans s) (m_outpoint_to_orphan_it s)" by (auto simp: coherent_def)
  show ?case
  proof (cases "m_outpoint_to_orphan_it s p")
    case None
    thus ?thesis using Cons by (simp add: spenders_def)
  next
    case (Some S)
    from outpoints_ok_live[OF o Some] have "set (sorted_list_of_set S) \<subseteq> fst ` set (m_orphans s)"
      by simp
    from gather_set_live[OF k this] Some Cons show ?thesis by (simp add: spenders_def)
  qed
qed

lemma gather_block_coherent:
  assumes "coherent s"
  shows "gather_block s b acc = Inr (acc @ concat (map (spenders s) (concat (map vin b))))"
  by (induction b arbitrary: acc) (simp_all add: gather_inputs_coherent[OF assms])

lemma count_spenders:
  assumes "coherent s"
  shows "count_list (spenders s p) w =
           (case map_of (m_orphans s) w of
              None \<Rightarrow> 0
            | Some e \<Rightarrow> if p \<in> set (vin (tx e)) then 1 else 0)"
proof -
  from assms have o: "outpoints_ok (m_orphans s) (m_outpoint_to_orphan_it s)" by (auto simp: coherent_def)
  hence ex: "(\<exists>S. m_outpoint_to_orphan_it s p = Some S \<and> w \<in> S) \<longleftrightarrow>
            (\<exists>e. map_of (m_orphans s) w = Some e \<and> p \<in> set (vin (tx e)))"
    unfolding outpoints_ok_def by blast
  show ?thesis
  proof (cases "m_outpoint_to_orphan_it s p")
    case None
    with ex show ?thesis by (auto simp: spenders_def split: option.splits)
  next
    case (Some S)
    from outpoints_ok_live(2)[OF o Some] have f: "finite S" .
    hence "count_list (sorted_list_of_set S) w = (if w \<in> S then 1 else 0)"
      by (simp add: count_list_distinct)
    with ex Some show ?thesis by (auto simp: spenders_def split: option.splits)
  qed
qed

lemma count_concat_spenders:
  assumes "coherent s"
  shows "count_list (concat (map (spenders s) ps)) w =
           (case map_of (m_orphans s) w of
              None \<Rightarrow> 0
            | Some e \<Rightarrow> length (filter (\<lambda>p. p \<in> set (vin (tx e))) ps))"
  by (induction ps) (auto simp: count_spenders[OF assms] split: option.splits)

lemma erase_all_coherent:
  assumes "coherent s"
  shows "\<exists>s' n'. erase_all s ws n = Inr (s', n') \<and> coherent s' \<and>
           forget_pos (m_orphans s') = filter (\<lambda>kv. fst kv \<notin> set ws) (forget_pos (m_orphans s)) \<and>
           m_peer_work_set s' = m_peer_work_set s \<and> m_next_sweep s' = m_next_sweep s"
  using assms
proof (induction ws arbitrary: s n)
  case Nil
  thus ?case by simp
next
  case (Cons w ws)
  from EraseTx_coherent[OF Cons.prems, of w] obtain s1 r where
    s1: "EraseTx s w = Inr (s1, r)" "coherent s1"
        "forget_pos (m_orphans s1) = omap_erase w (forget_pos (m_orphans s))"
        "m_peer_work_set s1 = m_peer_work_set s" "m_next_sweep s1 = m_next_sweep s"
    by blast
  from Cons.IH[OF s1(2), of "n + r"] obtain s' n' where
    s': "erase_all s1 ws (n + r) = Inr (s', n')" "coherent s'"
        "forget_pos (m_orphans s') = filter (\<lambda>kv. fst kv \<notin> set ws) (forget_pos (m_orphans s1))"
        "m_peer_work_set s' = m_peer_work_set s1" "m_next_sweep s' = m_next_sweep s1"
    by blast
  have "forget_pos (m_orphans s') = filter (\<lambda>kv. fst kv \<notin> set (w # ws)) (forget_pos (m_orphans s))"
    unfolding s'(3) s1(3) omap_erase_def filter_filter by (rule filter_cong[OF refl]) auto
  thus ?case using s1 s' by simp
qed

text \<open>
  C10. On a coherent orphanage \<^verbatim>\<open>EraseForBlock\<close> returns without abort. The returned vector
  holds each wtxid once for every input of the block whose prevout the orphan spends, so
  as many times as the block has such inputs. The entries left are those whose wtxid is
  not in the vector, and none of them spends an outpoint spent by a transaction of the
  block.
\<close>

theorem EraseForBlock_erases_spenders:
  assumes c: "coherent s"
  shows "\<exists>s' ws. EraseForBlock s b = Inr (s', ws) \<and>
           (\<forall>w. count_list ws w =
                  (case map_of (m_orphans s) w of
                     None \<Rightarrow> 0
                   | Some e \<Rightarrow> length (filter (\<lambda>p. p \<in> set (vin (tx e))) (concat (map vin b))))) \<and>
           forget_pos (m_orphans s') = filter (\<lambda>kv. fst kv \<notin> set ws) (forget_pos (m_orphans s)) \<and>
           (\<forall>(k, e) \<in> set (m_orphans s'). \<forall>t \<in> set b. set (vin t) \<inter> set (vin (tx e)) = {}) \<and>
           coherent s'"
proof -
  let ?ws = "concat (map (spenders s) (concat (map vin b)))"
  have g: "gather_block s b [] = Inr ?ws" by (simp add: gather_block_coherent[OF c])
  from erase_all_coherent[OF c, of ?ws 0] obtain s1 n1 where
    s1: "erase_all s ?ws 0 = Inr (s1, n1)" "coherent s1"
        "forget_pos (m_orphans s1) = filter (\<lambda>kv. fst kv \<notin> set ?ws) (forget_pos (m_orphans s))"
    by blast
  define s' where "s' = (if ?ws \<noteq> [] then s1 else s)"
  have run: "EraseForBlock s b = Inr (s', ?ws)"
    using g s1(1) by (simp add: EraseForBlock_def s'_def)
  have c': "coherent s'" using c s1(2) by (simp add: s'_def)
  have F': "forget_pos (m_orphans s') = filter (\<lambda>kv. fst kv \<notin> set ?ws) (forget_pos (m_orphans s))"
    using s1(3) by (simp add: s'_def)
  have cnt: "count_list ?ws w =
                  (case map_of (m_orphans s) w of
                     None \<Rightarrow> 0
                   | Some e \<Rightarrow> length (filter (\<lambda>p. p \<in> set (vin (tx e))) (concat (map vin b))))" for w
    by (rule count_concat_spenders[OF c])
  have none: "set (vin t) \<inter> set (vin (tx e)) = {}"
    if h: "(k, e) \<in> set (m_orphans s')" "t \<in> set b" for k e t
  proof (rule ccontr)
    assume "set (vin t) \<inter> set (vin (tx e)) \<noteq> {}"
    then obtain p where p: "p \<in> set (vin t)" "p \<in> set (vin (tx e))" by blast
    from h(1) have "(k, e\<lparr>list_pos := 0\<rparr>) \<in> set (forget_pos (m_orphans s'))"
      by (force simp: forget_pos_def)
    hence k: "k \<notin> set ?ws" "(k, e\<lparr>list_pos := 0\<rparr>) \<in> set (forget_pos (m_orphans s))"
      unfolding F' by auto
    have d: "distinct (map fst (forget_pos (m_orphans s)))"
      using c keys_ok_distinct by (simp add: coherent_def keys_forget_pos)
    from k(2) d have "map_of (forget_pos (m_orphans s)) k = Some (e\<lparr>list_pos := 0\<rparr>)" by simp
    then obtain e0 where e0: "map_of (m_orphans s) k = Some e0" "e\<lparr>list_pos := 0\<rparr> = e0\<lparr>list_pos := 0\<rparr>"
      using map_of_forget_pos_Some by blast
    from e0(2) have "tx e0 = tx e" by (metis OrphanTx.select_convs(1) OrphanTx.surjective OrphanTx.update_convs(4))
    with p h(2) have "filter (\<lambda>q. q \<in> set (vin (tx e0))) (concat (map vin b)) \<noteq> []"
      by (auto simp: filter_empty_conv)
    with cnt[of k] e0(1) have "count_list ?ws k \<noteq> 0" by simp
    with k(1) show False by (simp add: count_list_0_iff)
  qed
  show ?thesis using run cnt F' none c' by blast
qed

lemma two_orphans_outpoints:
  "m_outpoint_to_orphan_it two_orphans = [(10, 0) \<mapsto> {21}, (10, 1) \<mapsto> {21}, (1, 0) \<mapsto> {11}]"
  by (simp add: two_orphans_def after_calls_def example_calls_def orphanage_eval outpoint_insert_def)

theorem EraseForBlock_erases_spenders_witness:
  "\<exists>s'. EraseForBlock two_orphans [block_tx] = Inr (s', [21, 21]) \<and>
        map fst (m_orphans s') = [11] \<and> coherent s'"
proof -
  have c: "coherent two_orphans" unfolding two_orphans_def by (rule coherent_after_calls)
  have ev: "map_sum id snd (EraseForBlock two_orphans [block_tx]) = Inr [21, 21]"
    by (simp add: EraseForBlock_def block_tx_def two_orphans_outpoints two_orphans_fields
          EraseTx_def Let_def child_tx_def parent_tx_def omap_erase_def omap_modify_def)
  from EraseForBlock_erases_spenders[OF c, of "[block_tx]"] obtain s' ws where
    r: "EraseForBlock two_orphans [block_tx] = Inr (s', ws)"
       "forget_pos (m_orphans s') = filter (\<lambda>kv. fst kv \<notin> set ws) (forget_pos (m_orphans two_orphans))"
       "coherent s'"
    by blast
  from ev r(1) have ws: "ws = [21, 21]" by simp
  have "filter (\<lambda>kv. fst kv \<notin> set ws) (forget_pos (m_orphans two_orphans)) =
          [(11, \<lparr>tx = parent_tx, announcers = {8}, nTimeExpire = 1205, list_pos = 0, parent_txids = []\<rparr>)]"
    by (simp add: ws two_orphans_fields forget_pos_def)
  with arg_cong[OF r(2), of "map fst"] have "map fst (m_orphans s') = [11]"
    by (simp add: keys_forget_pos)
  with r(1,3) ws show ?thesis by auto
qed


section \<open>The spork manager\<close>

text \<open>
  C9. \<^verbatim>\<open>CheckAndRemove\<close> asserts on entry that the set of authorized signer keys is not
  empty: called with an empty set it aborts, called with at least one key it returns.
\<close>

theorem CheckAndRemove_asserts_signers:
  "(setSporkPubKeyIDs s = {} \<longrightarrow> CheckAndRemove ext s = Inl AssertionFailed) \<and>
   (setSporkPubKeyIDs s \<noteq> {} \<longrightarrow> (\<exists>s'. CheckAndRemove ext s = Inr s'))"
  by (auto simp: CheckAndRemove_def split: prod.splits)

theorem CheckAndRemove_asserts_signers_witness:
  "CheckAndRemove toy_ext (fresh_manager {} 1 0) = Inl AssertionFailed \<and>
   (\<exists>s'. CheckAndRemove toy_ext (fresh_manager {1, 2, 3} 2 1) = Inr s')"
  using CheckAndRemove_asserts_signers[of "fresh_manager {} 1 0" toy_ext]
        CheckAndRemove_asserts_signers[of "fresh_manager {1, 2, 3} 2 1" toy_ext]
  by (simp add: fresh_manager_def)

text \<open>
  C7, amended. For a spork message signed more than two hours after the adjusted time,
  \<^verbatim>\<open>ProcessSpork\<close> returns the manager as it was, forgets the hash and relays nothing; it
  scores the sender 100 misbehaviour points when the peer manager has given a record of
  the peer, and scores nobody when it has not.
\<close>

theorem ProcessSpork_too_far_in_future:
  assumes "nTimeSigned spork > now + 2 * 60 * 60"
  shows "fst (ProcessSpork ext now s pfrom peer NetMsgType_SPORK spork) = s \<and>
         snd (ProcessSpork ext now s pfrom peer NetMsgType_SPORK spork) =
           (case peer of Some p \<Rightarrow> [AddKnownTx p (CSporkMessage_GetHash ext spork)] | None \<Rightarrow> []) @
           [ReceivedResponse pfrom (CSporkMessage_GetHash ext spork),
            ForgetTxHash pfrom (CSporkMessage_GetHash ext spork)] @
           (case peer of
              Some p \<Rightarrow> [Misbehaving p 100 ''spork too far into the future'']
            | None \<Rightarrow> []) \<and>
         (\<forall>h. RelayTransactionOther h \<notin> set (snd (ProcessSpork ext now s pfrom peer NetMsgType_SPORK spork))) \<and>
         (\<forall>p. peer = Some p \<longrightarrow>
              Misbehaving p 100 ''spork too far into the future''
                \<in> set (snd (ProcessSpork ext now s pfrom peer NetMsgType_SPORK spork))) \<and>
         (peer = None \<longrightarrow>
              (\<forall>p n r. Misbehaving p n r
                 \<notin> set (snd (ProcessSpork ext now s pfrom peer NetMsgType_SPORK spork))))"
  using assms by (auto simp: ProcessSpork_def Let_def split: option.splits)

theorem ProcessSpork_too_far_in_future_witness:
  "fst (ProcessSpork toy_ext 1000 (fresh_manager {1, 2, 3} 2 1) 7 (Some 7) NetMsgType_SPORK
          (signed_spork 1 10000 5 (1000 + 3 * 60 * 60))) = fresh_manager {1, 2, 3} 2 1 \<and>
   Misbehaving 7 100 ''spork too far into the future''
     \<in> set (snd (ProcessSpork toy_ext 1000 (fresh_manager {1, 2, 3} 2 1) 7 (Some 7) NetMsgType_SPORK
          (signed_spork 1 10000 5 (1000 + 3 * 60 * 60))))"
proof -
  have "nTimeSigned (signed_spork 1 10000 5 (1000 + 3 * 60 * 60)) > 1000 + 2 * 60 * 60"
    by (simp add: signed_spork_def)
  from ProcessSpork_too_far_in_future[OF this, of toy_ext "fresh_manager {1, 2, 3} 2 1" 7 "Some 7"]
  show ?thesis by simp
qed

text \<open>
  C7 as claimed fails when the peer manager has no record of the sending node: the message
  is three hours ahead, and the only calls are \<^verbatim>\<open>ReceivedResponse\<close> and \<^verbatim>\<open>ForgetTxHash\<close>.
\<close>

theorem ProcessSpork_unknown_peer_counterexample:
  "nTimeSigned (signed_spork 1 10000 5 (1000 + 3 * 60 * 60)) > 1000 + 2 * 60 * 60 \<and>
   snd (ProcessSpork toy_ext 1000 (fresh_manager {1, 2, 3} 2 1) 7 None NetMsgType_SPORK
          (signed_spork 1 10000 5 (1000 + 3 * 60 * 60))) =
     [ReceivedResponse 7 21806, ForgetTxHash 7 21806]"
  by (simp add: ProcessSpork_def Let_def signed_spork_def toy_ext_def CSporkMessage_GetHash_def)


lemma map_of_umap_assign: "map_of (umap_assign k v m) = (map_of m)(k \<mapsto> v)"
  by (cases "map_of m k")
     (auto simp: umap_assign_def map_of_omap_modify map_add_def fun_eq_iff split: option.splits)

lemma map_of_omap_assign: "map_of (omap_assign k v m) = (map_of m)(k \<mapsto> v)"
  by (cases "map_of m k")
     (auto simp: omap_assign_def map_of_omap_modify map_of_insort_key fun_eq_iff)

lemma stored_store_spork:
  "stored (store_spork s h k m) sid' k' =
     (if sid' = nSporkID m \<and> k' = k then Some m else stored s sid' k')"
  by (auto simp: stored_def store_spork_def map_of_umap_assign map_of_omap_assign
           split: option.splits)

lemma ProcessSpork_state:
  "fst (ProcessSpork ext now s pfrom peer cmd spork) = s \<or>
   (\<exists>k. GetSignerKeyID ext spork = Some k \<and> k \<in> setSporkPubKeyIDs s \<and>
        nTimeSigned spork \<le> now + 2 * 60 * 60 \<and>
        (\<forall>m0. stored s (nSporkID spork) k = Some m0 \<longrightarrow> nTimeSigned m0 < nTimeSigned spork) \<and>
        fst (ProcessSpork ext now s pfrom peer cmd spork) =
          store_spork s (CSporkMessage_GetHash ext spork) k spork)"
  by (auto simp: ProcessSpork_def Let_def stored_def split: option.splits if_splits)

text \<open>
  C5, amended. For every manager state and every pair of a spork id and a signer:
  \<^verbatim>\<open>ProcessSpork\<close> leaves the stored message or replaces it by the incoming one, and then the
  incoming one is signed strictly later; an incoming message signed at exactly the time of
  the stored one of its own pair changes nothing. A successful \<^verbatim>\<open>UpdateSpork\<close> installs, for
  its own pair only, a message signed at the current adjusted time, without looking at the
  time of the stored one.
\<close>

theorem stored_time_signed_order:
  "(\<forall>sid k m0. stored s sid k = Some m0 \<longrightarrow>
      (\<exists>m1. stored (fst (ProcessSpork ext now s pfrom peer cmd spork)) sid k = Some m1 \<and>
            (m1 = m0 \<or> m1 = spork \<and> nTimeSigned m0 < nTimeSigned m1))) \<and>
   (\<forall>k m0. GetSignerKeyID ext spork = Some k \<longrightarrow> stored s (nSporkID spork) k = Some m0 \<longrightarrow>
      nTimeSigned spork = nTimeSigned m0 \<longrightarrow>
      fst (ProcessSpork ext now s pfrom peer cmd spork) = s) \<and>
   (\<forall>s' calls. UpdateSpork ext now s sid val = (s', True, calls) \<longrightarrow>
      (\<exists>k m. GetSignerKeyID ext m = Some k \<and> stored s' sid k = Some m \<and>
             nTimeSigned m = now \<and> nValue m = val \<and> nSporkID m = sid \<and>
             (\<forall>sid' k'. (sid', k') \<noteq> (sid, k) \<longrightarrow> stored s' sid' k' = stored s sid' k')))"
proof (intro conjI allI impI)
  fix sid k m0 assume m0: "stored s sid k = Some m0"
  from ProcessSpork_state[of ext now s pfrom peer cmd spork]
  show "\<exists>m1. stored (fst (ProcessSpork ext now s pfrom peer cmd spork)) sid k = Some m1 \<and>
            (m1 = m0 \<or> m1 = spork \<and> nTimeSigned m0 < nTimeSigned m1)"
  proof
    assume "fst (ProcessSpork ext now s pfrom peer cmd spork) = s"
    with m0 show ?thesis by simp
  next
    assume "\<exists>k. GetSignerKeyID ext spork = Some k \<and> k \<in> setSporkPubKeyIDs s \<and>
        nTimeSigned spork \<le> now + 2 * 60 * 60 \<and>
        (\<forall>m0. stored s (nSporkID spork) k = Some m0 \<longrightarrow> nTimeSigned m0 < nTimeSigned spork) \<and>
        fst (ProcessSpork ext now s pfrom peer cmd spork) =
          store_spork s (CSporkMessage_GetHash ext spork) k spork"
    then obtain k' where k':
      "\<forall>m0. stored s (nSporkID spork) k' = Some m0 \<longrightarrow> nTimeSigned m0 < nTimeSigned spork"
      "fst (ProcessSpork ext now s pfrom peer cmd spork) =
          store_spork s (CSporkMessage_GetHash ext spork) k' spork"
      by blast
    show ?thesis
    proof (cases "sid = nSporkID spork \<and> k = k'")
      case True
      with k'(1) m0 have "nTimeSigned m0 < nTimeSigned spork" by blast
      with True show ?thesis by (simp add: k'(2) stored_store_spork)
    next
      case False
      with m0 show ?thesis by (auto simp: k'(2) stored_store_spork)
    qed
  qed
next
  fix k m0
  assume "GetSignerKeyID ext spork = Some k" "stored s (nSporkID spork) k = Some m0"
    "nTimeSigned spork = nTimeSigned m0"
  thus "fst (ProcessSpork ext now s pfrom peer cmd spork) = s"
    by (auto simp: ProcessSpork_def Let_def stored_def split: option.splits if_splits)
next
  fix s' calls assume u: "UpdateSpork ext now s sid val = (s', True, calls)"
  let ?m0 = "\<lparr>vchSig = [], nSporkID = sid, nValue = val, nTimeSigned = now\<rparr>"
  from u obtain m k where m: "Sign ext ?m0 (sporkPrivKey s) = Some m"
    and k: "GetSignerKeyID ext m = Some k"
    and s': "s' = store_spork s (CSporkMessage_GetHash ext m) k m"
    by (auto simp: UpdateSpork_def split: option.splits if_splits)
  from m obtain sig where "m = ?m0\<lparr>vchSig := sig\<rparr>"
    by (auto simp: Sign_def split: option.splits if_splits)
  hence f: "nTimeSigned m = now" "nValue m = val" "nSporkID m = sid" by simp_all
  show "\<exists>k m. GetSignerKeyID ext m = Some k \<and> stored s' sid k = Some m \<and>
             nTimeSigned m = now \<and> nValue m = val \<and> nSporkID m = sid \<and>
             (\<forall>sid' k'. (sid', k') \<noteq> (sid, k) \<longrightarrow> stored s' sid' k' = stored s sid' k')"
    using k f by (intro exI[of _ k] exI[of _ m]) (auto simp: s' stored_store_spork)
qed

lemmas spork_eval =
  ProcessSpork_def UpdateSpork_def Sign_def store_spork_def GetSignerKeyID_def GetSignatureHash_def
  CSporkMessage_GetHash_def CheckSignature_def toy_ext_def fresh_manager_def signed_spork_def
  umap_assign_def omap_assign_def omap_modify_def Let_def stored_def

lemma one_spork_stored: "stored one_spork 10000 1 = Some (signed_spork 1 10000 5 5000)"
  by (simp add: one_spork_def spork_eval)

theorem stored_time_signed_order_witness:
  "fst (ProcessSpork toy_ext 1000 one_spork 7 (Some 7) NetMsgType_SPORK (signed_spork 1 10000 9 5000))
     = one_spork"
proof -
  have "GetSignerKeyID toy_ext (signed_spork 1 10000 9 5000) = Some 1"
    by (simp add: spork_eval)
  moreover have "stored one_spork (nSporkID (signed_spork 1 10000 9 5000)) 1 = Some (signed_spork 1 10000 5 5000)"
    using one_spork_stored by (simp add: signed_spork_def)
  moreover have "nTimeSigned (signed_spork 1 10000 9 5000) = nTimeSigned (signed_spork 1 10000 5 5000)"
    by (simp add: signed_spork_def)
  ultimately show ?thesis
    using stored_time_signed_order[of one_spork toy_ext 1000 7 "Some 7" NetMsgType_SPORK
            "signed_spork 1 10000 9 5000"]
    by blast
qed

text \<open>
  C5 as claimed fails for \<^verbatim>\<open>UpdateSpork\<close>: the stored message of signer 1 was signed at 5000
  (accepted at time 1000, being less than two hours ahead); \<^verbatim>\<open>UpdateSpork\<close> at time 1000
  succeeds and the stored message is now signed at 1000.
\<close>

theorem UpdateSpork_older_time_counterexample:
  "map_option nTimeSigned (stored one_spork 10000 1) = Some 5000 \<and>
   fst (snd (UpdateSpork toy_ext 1000 one_spork 10000 9)) \<and>
   map_option nTimeSigned (stored (fst (UpdateSpork toy_ext 1000 one_spork 10000 9)) 10000 1) = Some 1000"
  by (simp add: one_spork_def spork_eval)

lemma tally_append: "tally (xs @ ys) v = tally xs v + tally ys v"
  by (simp add: tally_def)

lemma tally_nonneg: "0 \<le> tally xs v"
  by (simp add: tally_def)

lemma count_votes_tally:
  assumes "\<forall>v. (case cnt v of None \<Rightarrow> 0 | Some c \<Rightarrow> c) = tally pre v"
    and "\<forall>v'. tally pre v' < nMin"
  shows "(count_votes nMin rest cnt = None \<longrightarrow> (\<forall>v'. tally (pre @ rest) v' < nMin)) \<and>
         (\<forall>v. count_votes nMin rest cnt = Some v \<longrightarrow>
            (\<exists>n<length rest. (\<forall>v'. tally (pre @ take n rest) v' < nMin) \<and>
                              nMin \<le> tally (pre @ take (Suc n) rest) v))"
  using assms
proof (induction rest arbitrary: cnt pre)
  case Nil
  thus ?case by simp
next
  case (Cons m rest)
  let ?c = "(case cnt (nValue m) of None \<Rightarrow> 0 | Some c \<Rightarrow> c) + 1"
  have c: "?c = tally (pre @ [m]) (nValue m)"
    using Cons.prems(1) by (simp add: tally_def)
  show ?case
  proof (cases "nMin \<le> ?c")
    case True
    hence run: "count_votes nMin (m # rest) cnt = Some (nValue m)" by (simp add: Let_def)
    have "(\<forall>v'. tally (pre @ take 0 (m # rest)) v' < nMin) \<and>
          nMin \<le> tally (pre @ take (Suc 0) (m # rest)) (nValue m)"
      using Cons.prems(2) True c by simp
    thus ?thesis using run by auto
  next
    case False
    let ?cnt = "cnt(nValue m \<mapsto> ?c)"
    have run: "count_votes nMin (m # rest) cnt = count_votes nMin rest ?cnt"
      using False by (simp add: Let_def)
    have rel: "\<forall>v. (case ?cnt v of None \<Rightarrow> 0 | Some c \<Rightarrow> c) = tally (pre @ [m]) v"
    proof
      fix v show "(case ?cnt v of None \<Rightarrow> 0 | Some c \<Rightarrow> c) = tally (pre @ [m]) v"
        using Cons.prems(1) c by (cases "v = nValue m") (simp_all add: tally_def)
    qed
    have low: "\<forall>v'. tally (pre @ [m]) v' < nMin"
    proof
      fix v' show "tally (pre @ [m]) v' < nMin"
        using Cons.prems(2) False c by (cases "v' = nValue m") (simp_all add: tally_def)
    qed
    note IH = Cons.IH[OF rel low]
    have none: "\<forall>v'. tally (pre @ m # rest) v' < nMin" if "count_votes nMin (m # rest) cnt = None"
    proof -
      from that have "count_votes nMin rest ?cnt = None" unfolding run .
      with IH have "\<forall>v'. tally ((pre @ [m]) @ rest) v' < nMin" by blast
      thus ?thesis by simp
    qed
    have some: "\<exists>n<length (m # rest). (\<forall>v'. tally (pre @ take n (m # rest)) v' < nMin) \<and>
                              nMin \<le> tally (pre @ take (Suc n) (m # rest)) v"
      if "count_votes nMin (m # rest) cnt = Some v" for v
    proof -
      from that have "count_votes nMin rest ?cnt = Some v" unfolding run .
      with IH obtain n where n: "n < length rest"
        "\<forall>v'. tally ((pre @ [m]) @ take n rest) v' < nMin"
        "nMin \<le> tally ((pre @ [m]) @ take (Suc n) rest) v"
        by blast
      show ?thesis
        by (rule exI[of _ "Suc n"]) (use n in simp)
    qed
    show ?thesis using none some by blast
  qed
qed

lemma tally_take_le: "tally (take n xs) v \<le> tally xs v"
proof -
  have "tally xs v = tally (take n xs) v + tally (drop n xs) v"
    by (metis append_take_drop_id tally_append)
  thus ?thesis using tally_nonneg[of "drop n xs" v] by simp
qed

lemma count_votes_first:
  assumes "0 < nMin"
  shows "(count_votes nMin sporks Map.empty = None \<longleftrightarrow> (\<forall>v. tally sporks v < nMin))"
    and "count_votes nMin sporks Map.empty = Some v \<Longrightarrow> first_to_reach nMin sporks v"
    and "count_votes nMin sporks Map.empty = Some v \<Longrightarrow> nMin \<le> tally sporks v"
proof -
  have a: "\<forall>v. (case Map.empty v of None \<Rightarrow> 0 | Some c \<Rightarrow> c) = tally [] v"
    by (simp add: tally_def)
  have b: "\<forall>v'. tally [] v' < nMin" using assms by (simp add: tally_def)
  note t = count_votes_tally[OF a b, of sporks, simplified]
  show f: "count_votes nMin sporks Map.empty = Some v \<Longrightarrow> first_to_reach nMin sporks v"
    using t unfolding first_to_reach_def by blast
  show r: "count_votes nMin sporks Map.empty = Some v \<Longrightarrow> nMin \<le> tally sporks v"
  proof -
    assume "count_votes nMin sporks Map.empty = Some v"
    from f[OF this] obtain n where "nMin \<le> tally (take (Suc n) sporks) v"
      unfolding first_to_reach_def by blast
    thus ?thesis using tally_take_le[of "Suc n" sporks v] by simp
  qed
  show "count_votes nMin sporks Map.empty = None \<longleftrightarrow> (\<forall>v. tally sporks v < nMin)"
  proof
    assume "count_votes nMin sporks Map.empty = None"
    thus "\<forall>v. tally sporks v < nMin" using t by blast
  next
    assume h: "\<forall>v. tally sporks v < nMin"
    show "count_votes nMin sporks Map.empty = None"
    proof (rule ccontr)
      assume "count_votes nMin sporks Map.empty \<noteq> None"
      then obtain v where v: "count_votes nMin sporks Map.empty = Some v" by auto
      from t v obtain n where "nMin \<le> tally (take (Suc n) sporks) v" by blast
      with tally_take_le[of "Suc n" sporks v] h show False by (smt (verit))
    qed
  qed
qed

lemma distinct_omap_assign:
  "distinct (map fst m) \<Longrightarrow> distinct (map fst (omap_assign k v m))"
proof (cases "map_of m k")
  case None
  hence "k \<notin> fst ` set m" by (simp add: map_of_eq_None_iff)
  thus "distinct (map fst m) \<Longrightarrow> ?thesis" using None
    by (simp add: omap_assign_def distinct_insort_key)
next
  case (Some x)
  thus "distinct (map fst m) \<Longrightarrow> ?thesis" by (simp add: omap_assign_def keys_omap_modify)
qed

lemma nMin_store_spork: "nMinSporkKeys (store_spork s h k m) = nMinSporkKeys s"
  by (simp add: store_spork_def)

lemma active_store_spork:
  "map_of (mapSporksActive (store_spork s h k m)) =
     (map_of (mapSporksActive s))(nSporkID m \<mapsto>
        omap_assign k m (case map_of (mapSporksActive s) (nSporkID m) of
                           None \<Rightarrow> [] | Some signers \<Rightarrow> signers))"
  by (simp add: store_spork_def map_of_umap_assign)

lemma cache_ok_store_spork:
  assumes "cache_ok s"
  shows "cache_ok (store_spork s h k m)"
proof -
  have d: "distinct (map fst signers)"
    if "map_of (mapSporksActive (store_spork s h k m)) sid = Some signers" for sid signers
  proof (cases "sid = nSporkID m")
    case True
    with that have "signers = omap_assign k m (case map_of (mapSporksActive s) (nSporkID m) of
                           None \<Rightarrow> [] | Some signers \<Rightarrow> signers)"
      by (simp add: active_store_spork)
    moreover have "distinct (map fst (case map_of (mapSporksActive s) (nSporkID m) of
                           None \<Rightarrow> [] | Some signers \<Rightarrow> signers))"
      using assms by (auto simp: cache_ok_def split: option.splits)
    ultimately show ?thesis by (simp add: distinct_omap_assign)
  next
    case False
    with that assms show ?thesis by (auto simp: active_store_spork cache_ok_def)
  qed
  have c: "\<exists>signers. map_of (mapSporksActive (store_spork s h k m)) sid = Some signers \<and>
           count_votes (nMinSporkKeys (store_spork s h k m)) (map snd signers) Map.empty = Some v"
    if "mapSporksCachedValues (store_spork s h k m) sid = Some v" for sid v
  proof -
    from that have ne: "sid \<noteq> nSporkID m" and "mapSporksCachedValues s sid = Some v"
      by (auto simp: store_spork_def split: if_splits)
    with assms obtain signers where "map_of (mapSporksActive s) sid = Some signers"
      "count_votes (nMinSporkKeys s) (map snd signers) Map.empty = Some v"
      unfolding cache_ok_def by blast
    moreover have "nMinSporkKeys (store_spork s h k m) = nMinSporkKeys s"
      by (simp add: store_spork_def)
    ultimately show ?thesis using ne by (simp add: active_store_spork)
  qed
  show ?thesis unfolding cache_ok_def using d c by blast
qed

lemma SporkValueIsActive_unchanged:
  "mapSporksActive (fst (SporkValueIsActive s sid)) = mapSporksActive s"
  "nMinSporkKeys (fst (SporkValueIsActive s sid)) = nMinSporkKeys s"
  by (auto simp: SporkValueIsActive_def split: option.splits)

lemma SporkValueIsActive_result:
  assumes "cache_ok s"
  shows "snd (SporkValueIsActive s sid) =
           (case map_of (mapSporksActive s) sid of
              None \<Rightarrow> None
            | Some signers \<Rightarrow> count_votes (nMinSporkKeys s) (map snd signers) Map.empty)"
proof (cases "map_of (mapSporksActive s) sid")
  case None
  thus ?thesis by (simp add: SporkValueIsActive_def)
next
  case (Some signers)
  show ?thesis
  proof (cases "mapSporksCachedValues s sid")
    case None
    with Some show ?thesis by (simp add: SporkValueIsActive_def split: option.splits)
  next
    case (Some v)
    with assms \<open>map_of (mapSporksActive s) sid = Some signers\<close>
    have "count_votes (nMinSporkKeys s) (map snd signers) Map.empty = Some v"
      unfolding cache_ok_def by fastforce
    with Some \<open>map_of (mapSporksActive s) sid = Some signers\<close> show ?thesis
      by (simp add: SporkValueIsActive_def)
  qed
qed

lemma SporkValueIsActive_memoizes:
  assumes "cache_ok s" "snd (SporkValueIsActive s sid) = Some v"
  shows "mapSporksCachedValues (fst (SporkValueIsActive s sid)) sid = Some v"
  using assms(2) by (auto simp: SporkValueIsActive_def split: option.splits)

lemma cache_ok_SporkValueIsActive:
  assumes "cache_ok s"
  shows "cache_ok (fst (SporkValueIsActive s sid))"
proof (cases "\<exists>signers v. map_of (mapSporksActive s) sid = Some signers \<and>
          mapSporksCachedValues s sid = None \<and>
          count_votes (nMinSporkKeys s) (map snd signers) Map.empty = Some v")
  case False
  hence "fst (SporkValueIsActive s sid) = s"
    by (auto simp: SporkValueIsActive_def split: option.splits)
  thus ?thesis using assms by simp
next
  case True
  then obtain signers v where h: "map_of (mapSporksActive s) sid = Some signers"
    "mapSporksCachedValues s sid = None"
    "count_votes (nMinSporkKeys s) (map snd signers) Map.empty = Some v" by blast
  hence "fst (SporkValueIsActive s sid) =
           s\<lparr>mapSporksCachedValues := (mapSporksCachedValues s)(sid \<mapsto> v)\<rparr>"
    by (simp add: SporkValueIsActive_def)
  thus ?thesis using assms h unfolding cache_ok_def by auto
qed

lemma cache_ok_spork_step:
  assumes "cache_ok s"
  shows "cache_ok (spork_step ext defs c s) \<and>
         nMinSporkKeys (spork_step ext defs c s) = nMinSporkKeys s"
proof (cases c)
  case (Call_ProcessSpork now pfrom peer cmd spork)
  from ProcessSpork_state[of ext now s pfrom peer cmd spork] assms show ?thesis
    by (auto simp: Call_ProcessSpork cache_ok_store_spork nMin_store_spork)
next
  case (Call_UpdateSpork now sid val)
  have "fst (UpdateSpork ext now s sid val) = s \<or>
        (\<exists>h k m. fst (UpdateSpork ext now s sid val) = store_spork s h k m)"
    by (auto simp: UpdateSpork_def split: option.splits)
  with assms show ?thesis
    by (auto simp: Call_UpdateSpork cache_ok_store_spork nMin_store_spork)
next
  case (Call_GetSporkValue sid)
  have "fst (GetSporkValue defs s sid) = fst (SporkValueIsActive s sid)"
    by (auto simp: GetSporkValue_def split: prod.splits option.splits)
  thus ?thesis
    using cache_ok_SporkValueIsActive[OF assms] by (simp add: Call_GetSporkValue SporkValueIsActive_unchanged)
next
  case (Call_IsSporkActive now sid)
  have g: "fst (GetSporkValue defs s sid) = fst (SporkValueIsActive s sid)"
    by (auto simp: GetSporkValue_def split: prod.splits option.splits)
  have "\<exists>f. fst (IsSporkActive defs now s sid) = s \<or>
            fst (IsSporkActive defs now s sid) = fst (SporkValueIsActive s sid) \<or>
            fst (IsSporkActive defs now s sid) =
              (fst (SporkValueIsActive s sid))\<lparr>mapSporksCachedActive := f\<rparr>"
    using g by (auto simp: IsSporkActive_def Let_def split: prod.splits)
  then obtain f where "fst (IsSporkActive defs now s sid) = s \<or>
            fst (IsSporkActive defs now s sid) = fst (SporkValueIsActive s sid) \<or>
            fst (IsSporkActive defs now s sid) =
              (fst (SporkValueIsActive s sid))\<lparr>mapSporksCachedActive := f\<rparr>" by blast
  moreover have "cache_ok (s'\<lparr>mapSporksCachedActive := f\<rparr>)" if "cache_ok s'" for s'
    using that by (simp add: cache_ok_def)
  ultimately show ?thesis
    using assms cache_ok_SporkValueIsActive[OF assms, of sid]
    by (auto simp: Call_IsSporkActive SporkValueIsActive_unchanged)
qed

lemma cache_ok_spork_run:
  "cache_ok s \<Longrightarrow> cache_ok (spork_run ext defs s cs) \<and>
     nMinSporkKeys (spork_run ext defs s cs) = nMinSporkKeys s"
proof (induction cs arbitrary: s)
  case Nil
  thus ?case by (simp add: spork_run_def)
next
  case (Cons c cs)
  from cache_ok_spork_step[OF Cons.prems, of ext defs c] Cons.IH[of "spork_step ext defs c s"]
  show ?case by (simp add: spork_run_def)
qed

lemma card_signers:
  assumes "distinct (map fst signers)"
  shows "int (card {k. \<exists>m. map_of signers k = Some m \<and> nValue m = v}) = tally (map snd signers) v"
proof -
  have "{k. \<exists>m. map_of signers k = Some m \<and> nValue m = v} =
        fst ` set (filter (\<lambda>km. nValue (snd km) = v) signers)"
    using assms by (force simp: image_iff dest: map_of_SomeD)
  moreover have "inj_on fst (set (filter (\<lambda>km. nValue (snd km) = v) signers))"
    using assms by (metis distinct_map inj_on_subset filter_is_subset)
  moreover have "distinct (filter (\<lambda>km. nValue (snd km) = v) signers)"
    using assms by (simp add: distinct_map)
  ultimately have "card {k. \<exists>m. map_of signers k = Some m \<and> nValue m = v} =
        length (filter (\<lambda>km. nValue (snd km) = v) signers)"
    using card_image[of fst "set (filter (\<lambda>km. nValue (snd km) = v) signers)"]
          distinct_card[of "filter (\<lambda>km. nValue (snd km) = v) signers"]
    by presburger
  also have "\<dots> = length (filter (\<lambda>m. nValue m = v) (map snd signers))"
    by (simp add: filter_map comp_def)
  finally show ?thesis by (simp add: tally_def)
qed

lemma card_stored_signers:
  assumes "cache_ok s"
  shows "int (card {k. \<exists>m. stored s sid k = Some m \<and> nValue m = v}) =
           (case map_of (mapSporksActive s) sid of
              None \<Rightarrow> 0
            | Some signers \<Rightarrow> tally (map snd signers) v)"
proof (cases "map_of (mapSporksActive s) sid")
  case None
  thus ?thesis by (simp add: stored_def)
next
  case (Some signers)
  with assms have "distinct (map fst signers)" unfolding cache_ok_def by blast
  from card_signers[OF this, of v] Some show ?thesis by (simp add: stored_def)
qed

text \<open>
  C2. Start from a manager that stores nothing and whose threshold is positive, and run any
  sequence of \<^verbatim>\<open>ProcessSpork\<close> messages (and \<^verbatim>\<open>UpdateSpork\<close> calls and queries). In the state
  reached, for every spork id: \<^verbatim>\<open>SporkValueIsActive\<close> yields a value exactly when some value
  is signed by at least \<open>nMinSporkKeys\<close> distinct signers of the id; the value it yields is
  signed by that many, is the first to reach the threshold in the walk over the signers,
  is what \<^verbatim>\<open>GetSporkValue\<close> returns, and is memoized in \<open>mapSporksCachedValues\<close>; when it
  yields none, \<^verbatim>\<open>GetSporkValue\<close> returns the default of the id, or \<open>-1\<close>.
\<close>

theorem GetSporkValue_threshold:
  assumes "mapSporksActive s0 = []" "mapSporksCachedValues s0 = Map.empty" "0 < nMinSporkKeys s0"
  shows
   "let s = spork_run ext defs s0 cs; nMin = nMinSporkKeys s in
    ((\<exists>v. snd (SporkValueIsActive s sid) = Some v) \<longleftrightarrow>
       (\<exists>v. nMin \<le> int (card {k. \<exists>m. stored s sid k = Some m \<and> nValue m = v}))) \<and>
    (\<forall>v. snd (SporkValueIsActive s sid) = Some v \<longrightarrow>
        nMin \<le> int (card {k. \<exists>m. stored s sid k = Some m \<and> nValue m = v}) \<and>
        GetSporkValue defs s sid = (fst (SporkValueIsActive s sid), v) \<and>
        mapSporksCachedValues (fst (SporkValueIsActive s sid)) sid = Some v \<and>
        (\<exists>signers. map_of (mapSporksActive s) sid = Some signers \<and>
                   first_to_reach nMin (map snd signers) v)) \<and>
    (snd (SporkValueIsActive s sid) = None \<longrightarrow>
        snd (GetSporkValue defs s sid) =
          (case find (\<lambda>d. sporkId d = sid) defs of Some d \<Rightarrow> defaultValue d | None \<Rightarrow> - 1))"
proof -
  define s where "s = spork_run ext defs s0 cs"
  have "cache_ok s0" using assms(1,2) by (simp add: cache_ok_def)
  from cache_ok_spork_run[OF this, of ext defs cs]
  have ok: "cache_ok s" and nm: "nMinSporkKeys s = nMinSporkKeys s0" by (simp_all add: s_def)
  hence pos: "0 < nMinSporkKeys s" using assms(3) by simp
  let ?n = "nMinSporkKeys s"
  note res = SporkValueIsActive_result[OF ok, of sid]
  note crd = card_stored_signers[OF ok, of sid]
  have a: "(\<exists>v. snd (SporkValueIsActive s sid) = Some v) \<longleftrightarrow>
       (\<exists>v. ?n \<le> int (card {k. \<exists>m. stored s sid k = Some m \<and> nValue m = v}))"
  proof (cases "map_of (mapSporksActive s) sid")
    case None
    thus ?thesis using res crd pos by simp
  next
    case (Some signers)
    have "(\<exists>v. count_votes ?n (map snd signers) Map.empty = Some v) \<longleftrightarrow>
          \<not> (\<forall>v. tally (map snd signers) v < ?n)"
      using count_votes_first(1)[OF pos, of "map snd signers"] by auto
    thus ?thesis using res crd Some by (auto simp: not_less)
  qed
  have b: "?n \<le> int (card {k. \<exists>m. stored s sid k = Some m \<and> nValue m = v}) \<and>
        GetSporkValue defs s sid = (fst (SporkValueIsActive s sid), v) \<and>
        mapSporksCachedValues (fst (SporkValueIsActive s sid)) sid = Some v \<and>
        (\<exists>signers. map_of (mapSporksActive s) sid = Some signers \<and>
                   first_to_reach ?n (map snd signers) v)"
    if h: "snd (SporkValueIsActive s sid) = Some v" for v
  proof -
    from h res obtain signers where sg: "map_of (mapSporksActive s) sid = Some signers"
      "count_votes ?n (map snd signers) Map.empty = Some v"
      by (auto split: option.splits)
    have 1: "?n \<le> int (card {k. \<exists>m. stored s sid k = Some m \<and> nValue m = v})"
      using count_votes_first(3)[OF pos sg(2)] crd[of v] sg(1) by simp
    have 2: "GetSporkValue defs s sid = (fst (SporkValueIsActive s sid), v)"
      using h by (auto simp: GetSporkValue_def split: prod.splits option.splits)
    have 3: "mapSporksCachedValues (fst (SporkValueIsActive s sid)) sid = Some v"
      by (rule SporkValueIsActive_memoizes[OF ok h])
    have 4: "first_to_reach ?n (map snd signers) v"
      by (rule count_votes_first(2)[OF pos sg(2)])
    show ?thesis using 1 2 3 4 sg(1) by blast
  qed
  have c: "snd (GetSporkValue defs s sid) =
          (case find (\<lambda>d. sporkId d = sid) defs of Some d \<Rightarrow> defaultValue d | None \<Rightarrow> - 1)"
    if "snd (SporkValueIsActive s sid) = None"
    using that by (auto simp: GetSporkValue_def split: prod.splits option.splits)
  show ?thesis unfolding Let_def s_def[symmetric] using a b c by blast
qed

lemma cached_manager_fields:
  "votes cached_manager = [(10000, [(1, 5), (2, 5)])]"
  "mapSporksCachedValues cached_manager 10000 = Some 5"
  "nMinSporkKeys cached_manager = 2"
  by (simp_all add: cached_manager_def vote_calls_def spork_run_def votes_def spork_eval
        GetSporkValue_def SporkValueIsActive_def NetMsgType_SPORK_def)

theorem GetSporkValue_threshold_witness:
  "GetSporkValue [] (spork_run toy_ext [] (fresh_manager {1, 2, 3} 2 1) (take 2 vote_calls)) 10000 =
     (cached_manager, 5)"
proof -
  let ?s = "spork_run toy_ext [] (fresh_manager {1, 2, 3} 2 1) (take 2 vote_calls)"
  have 1: "mapSporksActive (fresh_manager {1, 2, 3} 2 1) = []"
    and 2: "mapSporksCachedValues (fresh_manager {1, 2, 3} 2 1) = Map.empty"
    and 3: "0 < nMinSporkKeys (fresh_manager {1, 2, 3} 2 1)"
    by (simp_all add: fresh_manager_def)
  have v: "snd (SporkValueIsActive ?s 10000) = Some 5"
    by (simp add: vote_calls_def spork_run_def spork_eval SporkValueIsActive_def NetMsgType_SPORK_def)
  have f: "fst (SporkValueIsActive ?s 10000) = cached_manager"
    by (simp add: cached_manager_def vote_calls_def spork_run_def GetSporkValue_def v
          split: prod.splits option.splits)
  from GetSporkValue_threshold[OF 1 2 3, of toy_ext "[]" "take 2 vote_calls" 10000] v f
  show ?thesis unfolding Let_def by simp
qed

text \<open>
  C3 on the code. Signers 1 and 2 of the authorized 1, 2, 3 set spork 10000 to 5, the
  threshold is 2, and \<^verbatim>\<open>GetSporkValue\<close> has memoized 5. After \<^verbatim>\<open>Clear\<close> the memoized 5 is
  still there and no message is stored. After \<^verbatim>\<open>CheckAndRemove\<close>, run once signer 2 is no
  longer authorized, one signer of 5 is left, 5 is still memoized and \<^verbatim>\<open>GetSporkValue\<close>
  still returns it. After \<^verbatim>\<open>SetMinSporkKeys(3)\<close> the two signers are below the threshold and
  the memoized 5 is still returned.
\<close>

theorem cached_value_outlives_signers:
  "votes cached_manager = [(10000, [(1, 5), (2, 5)])] \<and>
   nMinSporkKeys cached_manager = 2 \<and>
   mapSporksCachedValues cached_manager 10000 = Some 5 \<and>
   mapSporksCachedValues (Clear cached_manager) 10000 = Some 5 \<and>
   votes (Clear cached_manager) = [] \<and>
   map_sum id (\<lambda>s. (mapSporksCachedValues s 10000, votes s, nMinSporkKeys s, snd (GetSporkValue [] s 10000)))
     (CheckAndRemove toy_ext (cached_manager\<lparr>setSporkPubKeyIDs := {1, 3}\<rparr>)) =
     Inr (Some 5, [(10000, [(1, 5)])], 2, 5) \<and>
   snd (SetMinSporkKeys cached_manager 3) \<and>
   nMinSporkKeys (fst (SetMinSporkKeys cached_manager 3)) = 3 \<and>
   mapSporksCachedValues (fst (SetMinSporkKeys cached_manager 3)) 10000 = Some 5 \<and>
   votes (fst (SetMinSporkKeys cached_manager 3)) = [(10000, [(1, 5), (2, 5)])] \<and>
   snd (GetSporkValue [] (fst (SetMinSporkKeys cached_manager 3)) 10000) = 5"
  by (simp add: cached_manager_def vote_calls_def spork_run_def votes_def spork_eval
        GetSporkValue_def SporkValueIsActive_def NetMsgType_SPORK_def Clear_def
        CheckAndRemove_def SetMinSporkKeys_def)

end
